theory Spec2Isabelle
  imports Main "HOL-Library.Word"
begin

section \<open>The C data model\<close>

text \<open>
  The program \<^verbatim>\<open>fold-concat.c\<close> passes integers through pointer-typed slots: the length
  accumulator of \<^verbatim>\<open>concat\<close> travels as a \<^verbatim>\<open>void*\<close>, \<^verbatim>\<open>fold_array\<close> returns its
  \<^verbatim>\<open>void*\<close> accumulator as an \<^verbatim>\<open>int\<close>, and \<^verbatim>\<open>stpcpy\<close> is called through a function
  pointer type that returns \<^verbatim>\<open>int\<close>. The model is the ILP32 data model, in which
  \<^verbatim>\<open>int\<close>, \<^verbatim>\<open>size_t\<close> and every pointer are 32 bits wide, and it writes each conversion
  of the source out (\<open>ptr_to_int\<close>, \<open>int_to_ptr\<close>, \<open>int_to_size\<close>, \<open>size_to_int\<close>,
  \<open>ptr_to_size\<close>). Arithmetic on \<^verbatim>\<open>int\<close> wraps around modulo \<open>2 ^ 32\<close>.

  On this data model the conversions between \<^verbatim>\<open>int\<close> and pointers lose nothing, which is
  what the program presupposes. On a data model with wider pointers (LP64) \<open>ptr_to_int\<close>
  would drop the upper half of a pointer, and with it the results of \<^verbatim>\<open>fold_array\<close> and
  the accumulator of \<^verbatim>\<open>fold_string_list\<close>; the theory does not cover that case.
\<close>

type_synonym cint = "32 word"
type_synonym size_t = "32 word"
type_synonym ptr = "32 word"

abbreviation NULL :: ptr where
  "NULL \<equiv> 0"

abbreviation NUL :: char where
  "NUL \<equiv> CHR 0x00"

definition ptr_to_int :: "ptr \<Rightarrow> cint" where
  "ptr_to_int p = ucast p"

definition int_to_ptr :: "cint \<Rightarrow> ptr" where
  "int_to_ptr i = scast i"

definition int_to_size :: "cint \<Rightarrow> size_t" where
  "int_to_size i = scast i"

definition size_to_int :: "size_t \<Rightarrow> cint" where
  "size_to_int n = ucast n"

definition ptr_to_size :: "ptr \<Rightarrow> size_t" where
  "ptr_to_size p = ucast p"

text \<open>The address of \<^verbatim>\<open>array[i]\<close> for an array of \<^verbatim>\<open>int\<close> or of pointers (4 bytes each).\<close>

definition index_addr :: "ptr \<Rightarrow> cint \<Rightarrow> ptr" where
  "index_addr array i = array + 4 * int_to_ptr i"

subsection \<open>Memory\<close>

text \<open>
  \<^verbatim>\<open>struct _string_list\<close> and \<^verbatim>\<open>struct _list\<close> have the same shape (a value pointer and
  a next pointer); \<^verbatim>\<open>main\<close> hands a \<^verbatim>\<open>string_list\<close> to \<^verbatim>\<open>fold_list\<close>, so both are one
  kind of node.
\<close>

record list_node =
  node_value :: ptr
  node_next :: ptr

record counted_array =
  ca_value :: ptr
  ca_length :: cint

text \<open>
  Memory is split by the type of the object stored. Character memory is a total map of
  contents together with the set of addresses that belong to a live object: \<^verbatim>\<open>malloc\<close>
  adds a block to that set and leaves the contents as they were, which is how freshly
  allocated memory is uninitialised. The other components are partial maps; an address
  outside the domain holds no object of that type.
\<close>

record heap =
  chars :: "ptr \<Rightarrow> char"
  allocated :: "ptr set"
  ints :: "ptr \<Rightarrow> cint option"
  ptrs :: "ptr \<Rightarrow> ptr option"
  nodes :: "ptr \<Rightarrow> list_node option"
  counted_arrays :: "ptr \<Rightarrow> counted_array option"

definition valid_char :: "heap \<Rightarrow> ptr \<Rightarrow> bool" where
  "valid_char h a \<longleftrightarrow> a \<noteq> NULL \<and> a \<in> allocated h"

subsection \<open>Outcomes\<close>

text \<open>
  A call returns a value, stops at an invalid memory access (undefined behaviour in C, a
  \<open>fault\<close> here), or does not return at all (\<open>None\<close>).
\<close>

datatype fault = InvalidRead ptr | InvalidWrite ptr

type_synonym 'a result = "(fault + 'a) option"

abbreviation Return :: "'a \<Rightarrow> 'a result" where
  "Return x \<equiv> Some (Inr x)"

abbreviation Fault :: "fault \<Rightarrow> 'a result" where
  "Fault f \<equiv> Some (Inl f)"

definition bind_result :: "'a result \<Rightarrow> ('a \<Rightarrow> 'b result) \<Rightarrow> 'b result" where
  "bind_result m k = (case m of None \<Rightarrow> None | Some (Inl f) \<Rightarrow> Fault f | Some (Inr x) \<Rightarrow> k x)"

lemma bind_result_mono [partial_function_mono]:
  assumes mf: "mono_option B" and mg: "\<And>y. mono_option (\<lambda>f. C y f)"
  shows "mono_option (\<lambda>f. bind_result (B f) (\<lambda>y. C y f))"
proof -
  have eq: "\<And>m k. bind_result m k =
      Option.bind m (\<lambda>r. case r of Inl e \<Rightarrow> Fault e | Inr x \<Rightarrow> k x)"
    by (simp add: bind_result_def split: option.splits sum.splits)
  have "mono_option (\<lambda>f. Option.bind (B f)
      (\<lambda>r. case r of Inl e \<Rightarrow> Fault e | Inr x \<Rightarrow> C x f))"
  proof (rule bind_mono [OF mf])
    fix r
    show "mono_option (\<lambda>f. case r of Inl e \<Rightarrow> Fault e | Inr x \<Rightarrow> C x f)"
      by (cases r) (simp_all add: mg option.const_mono)
  qed
  then show ?thesis by (simp add: eq)
qed

text \<open>A function pointer may point to code that reads and writes memory.\<close>

type_synonym int_binop = "heap \<Rightarrow> cint \<Rightarrow> cint \<Rightarrow> (cint \<times> heap) result"
type_synonym string_binop = "heap \<Rightarrow> ptr \<Rightarrow> ptr \<Rightarrow> (cint \<times> heap) result"
type_synonym binop = "heap \<Rightarrow> ptr \<Rightarrow> ptr \<Rightarrow> (ptr \<times> heap) result"
type_synonym fold_fn = "heap \<Rightarrow> ptr \<Rightarrow> ptr \<Rightarrow> binop \<Rightarrow> (ptr \<times> heap) result"

section \<open>The C library functions the program calls\<close>

text \<open>
  \<^verbatim>\<open>strlen\<close>: the number of characters before the first NUL, reading upwards from \<open>s\<close>.
\<close>

partial_function (option) strlen_from :: "heap \<Rightarrow> ptr \<Rightarrow> size_t \<Rightarrow> size_t result" where
  "strlen_from h s n =
     (if \<not> valid_char h s then Fault (InvalidRead s)
      else if chars h s = NUL then Return n
      else strlen_from h (s + 1) (n + 1))"

definition strlen :: "heap \<Rightarrow> ptr \<Rightarrow> size_t result" where
  "strlen h s = strlen_from h s 0"

text \<open>
  \<^verbatim>\<open>stpcpy\<close>: copies the string at \<open>src\<close>, its NUL included, to \<open>dst\<close> and returns the address
  of the NUL it wrote.
\<close>

partial_function (option) stpcpy :: "heap \<Rightarrow> ptr \<Rightarrow> ptr \<Rightarrow> (ptr \<times> heap) result" where
  "stpcpy h dst src =
     (if \<not> valid_char h src then Fault (InvalidRead src)
      else if \<not> valid_char h dst then Fault (InvalidWrite dst)
      else if chars h src = NUL then Return (dst, h\<lparr>chars := (chars h)(dst := NUL)\<rparr>)
      else stpcpy (h\<lparr>chars := (chars h)(dst := chars h src)\<rparr>) (dst + 1) (src + 1))"

text \<open>
  \<^verbatim>\<open>malloc\<close>: the allocator chooses the pointer \<open>p\<close> it returns; the choice is an input of
  the model. \<open>malloc_spec\<close> is what C promises of that choice: \<open>NULL\<close>, or the start of a
  block of \<open>n\<close> bytes that does not wrap around and shares no address with a live object.
  The contents of the block are not set.
\<close>

definition block :: "ptr \<Rightarrow> nat \<Rightarrow> ptr set" where
  "block p n = (\<lambda>i. p + of_nat i) ` {..<n}"

definition malloc_spec :: "heap \<Rightarrow> size_t \<Rightarrow> ptr \<Rightarrow> bool" where
  "malloc_spec h n p \<longleftrightarrow>
     p = NULL \<or> (unat p + unat n \<le> 2 ^ 32 \<and> block p (unat n) \<inter> allocated h = {})"

definition malloc :: "heap \<Rightarrow> size_t \<Rightarrow> ptr \<Rightarrow> ptr \<times> heap" where
  "malloc h n p =
     (if p = NULL then (NULL, h) else (p, h\<lparr>allocated := allocated h \<union> block p (unat n)\<rparr>))"

section \<open>The program\<close>

subsection \<open>Sums over int arrays\<close>

lemma sint_succ_less:
  fixes i len :: cint
  assumes "i <s len"
  shows "sint (i + 1) = sint i + 1"
proof -
  have "sint len < 2 ^ 31"
    using sint_lt [of len] by simp
  moreover have "- (2 ^ 31) \<le> sint i"
    using sint_ge [of i] by simp
  moreover have "sint i < sint len"
    using assms by (simp add: word_sless_alt)
  ultimately have r: "- (2 ^ 31) \<le> sint i + 1" "sint i + 1 < 2 ^ 31"
    by simp_all
  have "i + 1 = word_of_int (sint i + 1)"
    by simp
  then have "sint (i + 1) = signed_take_bit 31 (sint i + 1)"
    by (simp only: sint_sbintrunc') simp
  also have "\<dots> = sint i + 1"
    using r by (simp add: signed_take_bit_int_eq_self)
  finally show ?thesis .
qed

function sum_array_direct_loop :: "heap \<Rightarrow> ptr \<Rightarrow> cint \<Rightarrow> cint \<Rightarrow> cint \<Rightarrow> fault + cint" where
  "sum_array_direct_loop h xs len i acc =
     (if i <s len then
        (case ints h (index_addr xs i) of
           None \<Rightarrow> Inl (InvalidRead (index_addr xs i))
         | Some x \<Rightarrow> sum_array_direct_loop h xs len (i + 1) (acc + x))
      else Inr acc)"
  by pat_completeness auto

termination
  by (relation "measure (\<lambda>(h, xs, len, i, acc). nat (sint len - sint i))")
     (auto simp: sint_succ_less word_sless_alt)

declare sum_array_direct_loop.simps [simp del]

definition sum_array_direct :: "heap \<Rightarrow> ptr \<Rightarrow> cint \<Rightarrow> fault + cint" where
  "sum_array_direct h xs len = sum_array_direct_loop h xs len 0 0"

partial_function (option) fold_int_array_loop ::
  "heap \<Rightarrow> ptr \<Rightarrow> cint \<Rightarrow> int_binop \<Rightarrow> cint \<Rightarrow> cint \<Rightarrow> (cint \<times> heap) result" where
  "fold_int_array_loop h array len op i val =
     (if i <s len then
        (case ints h (index_addr array i) of
           None \<Rightarrow> Fault (InvalidRead (index_addr array i))
         | Some x \<Rightarrow>
             bind_result (op h val x)
               (\<lambda>(val', h'). fold_int_array_loop h' array len op (i + 1) val'))
      else Return (val, h))"

definition fold_int_array :: "heap \<Rightarrow> ptr \<Rightarrow> cint \<Rightarrow> cint \<Rightarrow> int_binop \<Rightarrow> (cint \<times> heap) result" where
  "fold_int_array h array len init op = fold_int_array_loop h array len op 0 init"

definition sum_c :: int_binop where
  "sum_c h x y = Return (x + y, h)"

definition sum_array :: "heap \<Rightarrow> ptr \<Rightarrow> cint \<Rightarrow> (cint \<times> heap) result" where
  "sum_array h array len = fold_int_array h array len 0 sum_c"

subsection \<open>String lists\<close>

partial_function (option) size_list_loop :: "heap \<Rightarrow> ptr \<Rightarrow> cint \<Rightarrow> cint result" where
  "size_list_loop h list size' =
     (if list \<noteq> NULL then
        (case nodes h list of
           None \<Rightarrow> Fault (InvalidRead list)
         | Some node \<Rightarrow>
             bind_result (strlen h (node_value node))
               (\<lambda>k. size_list_loop h (node_next node) (size_to_int (int_to_size size' + k))))
      else Return size')"

definition size_list_c :: "heap \<Rightarrow> ptr \<Rightarrow> cint result" where
  "size_list_c h list = size_list_loop h list 0"

partial_function (option) concat_list_loop :: "heap \<Rightarrow> ptr \<Rightarrow> ptr \<Rightarrow> heap result" where
  "concat_list_loop h list outp =
     (if list \<noteq> NULL then
        (case nodes h list of
           None \<Rightarrow> Fault (InvalidRead list)
         | Some node \<Rightarrow>
             bind_result (stpcpy h outp (node_value node))
               (\<lambda>(outp', h').
                  case nodes h' list of
                    None \<Rightarrow> Fault (InvalidRead list)
                  | Some node' \<Rightarrow> concat_list_loop h' (node_next node') outp'))
      else Return h)"

text \<open>
  In the definitions of \<^verbatim>\<open>concat_list\<close>, \<^verbatim>\<open>concat_string_list\<close> and \<^verbatim>\<open>concat\<close> the last
  argument \<open>p\<close> is the pointer that the call of \<^verbatim>\<open>malloc\<close> returns.
\<close>

definition concat_list :: "heap \<Rightarrow> ptr \<Rightarrow> ptr \<Rightarrow> (ptr \<times> heap) result" where
  "concat_list h list p =
     bind_result (size_list_c h list)
       (\<lambda>n. case malloc h (int_to_size (n + 1)) p of
          (outbuf, h1) \<Rightarrow>
            if outbuf \<noteq> NULL then
              bind_result (concat_list_loop h1 list outbuf) (\<lambda>h2. Return (outbuf, h2))
            else Return (outbuf, h1))"

text \<open>
  \<^verbatim>\<open>fold_string_list\<close>: the reducer returns \<^verbatim>\<open>int\<close>, the accumulator is a \<^verbatim>\<open>char*\<close>; the
  assignment \<^verbatim>\<open>value = op(value, list->value)\<close> converts.
\<close>

partial_function (option) fold_string_list_loop ::
  "heap \<Rightarrow> ptr \<Rightarrow> ptr \<Rightarrow> string_binop \<Rightarrow> (ptr \<times> heap) result" where
  "fold_string_list_loop h list val op =
     (if list \<noteq> NULL then
        (case nodes h list of
           None \<Rightarrow> Fault (InvalidRead list)
         | Some node \<Rightarrow>
             bind_result (op h val (node_value node))
               (\<lambda>(r, h').
                  case nodes h' list of
                    None \<Rightarrow> Fault (InvalidRead list)
                  | Some node' \<Rightarrow> fold_string_list_loop h' (node_next node') (int_to_ptr r) op))
      else Return (val, h))"

definition fold_string_list :: "heap \<Rightarrow> ptr \<Rightarrow> ptr \<Rightarrow> string_binop \<Rightarrow> (ptr \<times> heap) result" where
  "fold_string_list h list init op = fold_string_list_loop h list init op"

definition accumulate_length :: "heap \<Rightarrow> cint \<Rightarrow> ptr \<Rightarrow> (cint \<times> heap) result" where
  "accumulate_length h acc string =
     bind_result (strlen h string) (\<lambda>k. Return (size_to_int (int_to_size acc + k), h))"

text \<open>
  \<^verbatim>\<open>concat_string_list\<close> passes \<^verbatim>\<open>accumulate_length\<close> (first parameter \<^verbatim>\<open>int\<close>) and
  \<^verbatim>\<open>stpcpy\<close> (result \<^verbatim>\<open>char*\<close>) where a \<^verbatim>\<open>string_binop\<close> is expected: the call through that
  pointer type passes the \<^verbatim>\<open>char*\<close> accumulator as the \<^verbatim>\<open>int\<close> parameter and reads the
  returned pointer as an \<^verbatim>\<open>int\<close>.
\<close>

definition accumulate_length_as_string_binop :: string_binop where
  "accumulate_length_as_string_binop h acc string = accumulate_length h (ptr_to_int acc) string"

definition stpcpy_as_string_binop :: string_binop where
  "stpcpy_as_string_binop h dst src =
     bind_result (stpcpy h dst src) (\<lambda>(r, h'). Return (ptr_to_int r, h'))"

definition concat_string_list :: "heap \<Rightarrow> ptr \<Rightarrow> ptr \<Rightarrow> (ptr \<times> heap) result" where
  "concat_string_list h list p =
     bind_result (fold_string_list h list NULL accumulate_length_as_string_binop)
       (\<lambda>(n, h0). case malloc h0 (ptr_to_size (n + 1)) p of
          (outbuf, h1) \<Rightarrow>
            if outbuf \<noteq> NULL then
              bind_result (fold_string_list h1 list outbuf stpcpy_as_string_binop)
                (\<lambda>(r, h2). Return (outbuf, h2))
            else Return (outbuf, h1))"

definition accumulate_length_helper :: binop where
  "accumulate_length_helper h acc string =
     bind_result (accumulate_length h (ptr_to_int acc) string)
       (\<lambda>(r, h'). Return (int_to_ptr r, h'))"

subsection \<open>Generic folds\<close>

partial_function (option) fold_array_loop ::
  "heap \<Rightarrow> ptr \<Rightarrow> cint \<Rightarrow> binop \<Rightarrow> cint \<Rightarrow> ptr \<Rightarrow> (ptr \<times> heap) result" where
  "fold_array_loop h array len op i val =
     (if i <s len then
        (case ptrs h (index_addr array i) of
           None \<Rightarrow> Fault (InvalidRead (index_addr array i))
         | Some x \<Rightarrow>
             bind_result (op h val x)
               (\<lambda>(val', h'). fold_array_loop h' array len op (i + 1) val'))
      else Return (val, h))"

text \<open>\<^verbatim>\<open>fold_array\<close> is declared to return \<^verbatim>\<open>int\<close>: its \<^verbatim>\<open>return value\<close> converts.\<close>

definition fold_array :: "heap \<Rightarrow> ptr \<Rightarrow> cint \<Rightarrow> ptr \<Rightarrow> binop \<Rightarrow> (cint \<times> heap) result" where
  "fold_array h array len init op =
     bind_result (fold_array_loop h array len op 0 init)
       (\<lambda>(val, h'). Return (ptr_to_int val, h'))"

partial_function (option) fold_list_loop ::
  "heap \<Rightarrow> ptr \<Rightarrow> ptr \<Rightarrow> binop \<Rightarrow> (ptr \<times> heap) result" where
  "fold_list_loop h list val op =
     (if list \<noteq> NULL then
        (case nodes h list of
           None \<Rightarrow> Fault (InvalidRead list)
         | Some node \<Rightarrow>
             bind_result (op h val (node_value node))
               (\<lambda>(val', h').
                  case nodes h' list of
                    None \<Rightarrow> Fault (InvalidRead list)
                  | Some node' \<Rightarrow> fold_list_loop h' (node_next node') val' op))
      else Return (val, h))"

definition fold_list :: fold_fn where
  "fold_list h list init op = fold_list_loop h list init op"

text \<open>
  \<^verbatim>\<open>concat\<close> passes \<^verbatim>\<open>accumulate_length\<close> where a \<^verbatim>\<open>binop\<close> is expected. The call through
  that pointer type is the one \<^verbatim>\<open>accumulate_length_helper\<close> spells out with its casts, so
  the model passes the helper. \<^verbatim>\<open>concat\<close> does not test what \<^verbatim>\<open>malloc\<close> returned.
\<close>

definition concat_c :: "fold_fn \<Rightarrow> heap \<Rightarrow> ptr \<Rightarrow> ptr \<Rightarrow> (ptr \<times> heap) result" where
  "concat_c fold' h collection p =
     bind_result (fold' h collection NULL accumulate_length_helper)
       (\<lambda>(n, h0). case malloc h0 (ptr_to_size (n + 1)) p of
          (outbuf, h1) \<Rightarrow>
            bind_result (fold' h1 collection outbuf stpcpy) (\<lambda>(r, h2). Return (outbuf, h2)))"

definition fold_counted_array :: fold_fn where
  "fold_counted_array h array init op =
     (case counted_arrays h array of
        None \<Rightarrow> Fault (InvalidRead array)
      | Some ca \<Rightarrow>
          bind_result (fold_array h (ca_value ca) (ca_length ca) init op)
            (\<lambda>(r, h'). Return (int_to_ptr r, h')))"

section \<open>Specification vocabulary\<close>

text \<open>
  What it means for a heap to hold a sequence: \<open>list_at h l xs\<close> says that the nodes
  reachable from \<open>l\<close> hold exactly the values \<open>xs\<close>, in order, and end in \<open>NULL\<close>;
  \<open>array_at m a xs\<close> that the 4-byte cells from \<open>a\<close> on hold \<open>xs\<close>; \<open>counted_array_at\<close>
  that a \<^verbatim>\<open>counted_array\<close> struct points to such an array and records its length;
  \<open>cstring h p s\<close> that a NUL-terminated string with the characters \<open>s\<close> starts at \<open>p\<close>.
  \<open>thread op h acc es\<close> is the left-to-right application
  \<open>op (... (op (op acc e1) e2) ...) en\<close>, with the memory handed from one call to the
  next: one call of \<open>op\<close> per element.
\<close>

fun list_at :: "heap \<Rightarrow> ptr \<Rightarrow> ptr list \<Rightarrow> bool" where
  "list_at h l [] \<longleftrightarrow> l = NULL"
| "list_at h l (x # xs) \<longleftrightarrow>
     l \<noteq> NULL \<and>
     (case nodes h l of
        None \<Rightarrow> False
      | Some node \<Rightarrow> node_value node = x \<and> list_at h (node_next node) xs)"

fun array_at :: "(ptr \<Rightarrow> 'a option) \<Rightarrow> ptr \<Rightarrow> 'a list \<Rightarrow> bool" where
  "array_at m a [] \<longleftrightarrow> True"
| "array_at m a (x # xs) \<longleftrightarrow> m a = Some x \<and> array_at m (a + 4) xs"

definition counted_array_at :: "heap \<Rightarrow> ptr \<Rightarrow> ptr list \<Rightarrow> bool" where
  "counted_array_at h c xs \<longleftrightarrow>
     (case counted_arrays h c of
        None \<Rightarrow> False
      | Some ca \<Rightarrow>
          length xs < 2 ^ 31 \<and> ca_length ca = of_nat (length xs) \<and>
          array_at (ptrs h) (ca_value ca) xs)"

fun cstring :: "heap \<Rightarrow> ptr \<Rightarrow> string \<Rightarrow> bool" where
  "cstring h p [] \<longleftrightarrow> valid_char h p \<and> chars h p = NUL"
| "cstring h p (c # s) \<longleftrightarrow> valid_char h p \<and> chars h p = c \<and> c \<noteq> NUL \<and> cstring h (p + 1) s"

fun thread :: "('s \<Rightarrow> 'a \<Rightarrow> 'e \<Rightarrow> ('a \<times> 's) result) \<Rightarrow> 's \<Rightarrow> 'a \<Rightarrow> 'e list \<Rightarrow> ('a \<times> 's) result" where
  "thread op h acc [] = Return (acc, h)"
| "thread op h acc (e # es) = bind_result (op h acc e) (\<lambda>(acc', h'). thread op h' acc' es)"

definition count_calls :: binop where
  "count_calls h acc e = Return (acc + 1, h)"

definition leaves_sequences :: "binop \<Rightarrow> bool" where
  "leaves_sequences op \<longleftrightarrow>
     (\<forall>h v x v' h'. op h v x = Return (v', h') \<longrightarrow>
        nodes h' = nodes h \<and> ptrs h' = ptrs h \<and> ints h' = ints h \<and>
        counted_arrays h' = counted_arrays h)"

definition pure_reducer :: "binop \<Rightarrow> bool" where
  "pure_reducer op \<longleftrightarrow> (\<forall>h v x v' h'. op h v x = Return (v', h') \<longrightarrow> h' = h)"

definition lift_pure :: "(ptr \<Rightarrow> ptr \<Rightarrow> ptr) \<Rightarrow> binop" where
  "lift_pure f h v x = Return (f v x, h)"

text \<open>
  The objects \<^verbatim>\<open>main\<close> builds, at addresses chosen for the example: the strings
  \<^verbatim>\<open>"foo"\<close>, \<^verbatim>\<open>"bar"\<close>, \<^verbatim>\<open>"hello"\<close> and \<^verbatim>\<open>"world"\<close>; the list nodes \<^verbatim>\<open>l1\<close> (at \<open>0x200\<close>)
  and \<^verbatim>\<open>l2\<close>; \<^verbatim>\<open>str_array\<close> (at \<open>0x300\<close>) and the counted array \<^verbatim>\<open>array\<close> (at \<open>0x400\<close>);
  and the int array \<open>[1, 2, 3, 4]\<close> (at \<open>0x500\<close>).
\<close>

definition main_heap :: heap where
  "main_heap =
     \<lparr>chars = (\<lambda>a. CHR ''?'')
        (0x100 := CHR ''f'', 0x101 := CHR ''o'', 0x102 := CHR ''o'', 0x103 := NUL,
         0x104 := CHR ''b'', 0x105 := CHR ''a'', 0x106 := CHR ''r'', 0x107 := NUL,
         0x110 := CHR ''h'', 0x111 := CHR ''e'', 0x112 := CHR ''l'', 0x113 := CHR ''l'',
         0x114 := CHR ''o'', 0x115 := NUL,
         0x118 := CHR ''w'', 0x119 := CHR ''o'', 0x11A := CHR ''r'', 0x11B := CHR ''l'',
         0x11C := CHR ''d'', 0x11D := NUL),
      allocated =
        {0x100, 0x101, 0x102, 0x103, 0x104, 0x105, 0x106, 0x107,
         0x110, 0x111, 0x112, 0x113, 0x114, 0x115,
         0x118, 0x119, 0x11A, 0x11B, 0x11C, 0x11D},
      ints = [0x500 \<mapsto> 1, 0x504 \<mapsto> 2, 0x508 \<mapsto> 3, 0x50C \<mapsto> 4],
      ptrs = [0x300 \<mapsto> 0x110, 0x304 \<mapsto> 0x118],
      nodes =
        [0x200 \<mapsto> \<lparr>node_value = 0x100, node_next = 0x208\<rparr>,
         0x208 \<mapsto> \<lparr>node_value = 0x104, node_next = NULL\<rparr>],
      counted_arrays = [0x400 \<mapsto> \<lparr>ca_value = 0x300, ca_length = 2\<rparr>]\<rparr>"

text \<open>
  The character memory after a string \<open>s\<close> and its NUL have been stored from \<open>d\<close> on
  (\<open>store_string\<close>), and after the strings \<open>ss\<close> have been stored one after the other,
  each over the NUL of the one before (\<open>store_strings\<close>); \<open>holds m p s\<close> says that the
  characters \<open>s\<close> stand in \<open>m\<close> from \<open>p\<close> on.
\<close>

fun store_string :: "(ptr \<Rightarrow> char) \<Rightarrow> ptr \<Rightarrow> string \<Rightarrow> (ptr \<Rightarrow> char)" where
  "store_string m d [] = m(d := NUL)"
| "store_string m d (c # s) = store_string (m(d := c)) (d + 1) s"

fun store_strings :: "(ptr \<Rightarrow> char) \<Rightarrow> ptr \<Rightarrow> string list \<Rightarrow> (ptr \<Rightarrow> char)" where
  "store_strings m d [] = m"
| "store_strings m d (s # ss) = store_strings (store_string m d s) (d + of_nat (length s)) ss"

fun holds :: "(ptr \<Rightarrow> char) \<Rightarrow> ptr \<Rightarrow> string \<Rightarrow> bool" where
  "holds m p [] \<longleftrightarrow> True"
| "holds m p (c # s) \<longleftrightarrow> m p = c \<and> holds m (p + 1) s"

text \<open>
  The memory after \<^verbatim>\<open>concat\<close> has allocated its buffer at \<open>p\<close> and stored the strings \<open>ss\<close>
  there.
\<close>

definition concat_result :: "heap \<Rightarrow> ptr \<Rightarrow> string list \<Rightarrow> heap" where
  "concat_result h p ss =
     h\<lparr>allocated := allocated h \<union> block p (length (concat ss) + 1),
       chars := store_strings (chars h) p ss\<rparr>"

text \<open>The memory of \<^verbatim>\<open>main\<close> with the counted array's length set to 0.\<close>

definition empty_array_heap :: heap where
  "empty_array_heap =
     main_heap\<lparr>counted_arrays := [0x400 \<mapsto> \<lparr>ca_value = 0x300, ca_length = 0\<rparr>]\<rparr>"

text \<open>
  The memory of \<^verbatim>\<open>main\<close> with two more counted arrays: one at \<open>0x410\<close> that holds the
  pointers of the list (to \<^verbatim>\<open>"foo"\<close> and \<^verbatim>\<open>"bar"\<close>), and one at \<open>0x420\<close> that points to a
  second copy of these two strings.
\<close>

definition twin_heap :: heap where
  "twin_heap =
     main_heap
       \<lparr>chars := (chars main_heap)
          (0x120 := CHR ''f'', 0x121 := CHR ''o'', 0x122 := CHR ''o'', 0x123 := NUL,
           0x124 := CHR ''b'', 0x125 := CHR ''a'', 0x126 := CHR ''r'', 0x127 := NUL),
        allocated := allocated main_heap \<union>
          {0x120, 0x121, 0x122, 0x123, 0x124, 0x125, 0x126, 0x127},
        ptrs := (ptrs main_heap)
          (0x310 \<mapsto> 0x100, 0x314 \<mapsto> 0x104, 0x320 \<mapsto> 0x120, 0x324 \<mapsto> 0x124),
        counted_arrays := (counted_arrays main_heap)
          (0x410 \<mapsto> \<lparr>ca_value = 0x310, ca_length = 2\<rparr>,
           0x420 \<mapsto> \<lparr>ca_value = 0x320, ca_length = 2\<rparr>)\<rparr>"

section \<open>Basic facts\<close>

lemma conv_id [simp]:
  "ptr_to_int p = p" "int_to_ptr i = i" "int_to_size i = i" "size_to_int n = n" "ptr_to_size p = p"
  by (simp_all add: ptr_to_int_def int_to_ptr_def int_to_size_def size_to_int_def ptr_to_size_def)

lemma bind_result_simps [simp]:
  "bind_result None k = None"
  "bind_result (Fault f) k = Fault f"
  "bind_result (Return x) k = k x"
  by (simp_all add: bind_result_def)

lemma index_addr_simps [simp]:
  "index_addr a 0 = a"
  "index_addr a (i + 1) = index_addr a i + 4"
  by (simp_all add: index_addr_def algebra_simps)

lemma fold_int_array_loop_thread:
  assumes "array_at (ints h) (index_addr array i) xs"
    and "sint i + int (length xs) = sint len"
    and "\<forall>h v x v' h'. op h v x = Return (v', h') \<longrightarrow> ints h' = ints h"
  shows "fold_int_array_loop h array len op i v = thread op h v xs"
  using assms
proof (induction xs arbitrary: h i v)
  case Nil
  then show ?case
    by (subst fold_int_array_loop.simps) (simp add: word_sless_alt)
next
  case (Cons x xs)
  from Cons.prems(2) have less: "i <s len"
    by (simp add: word_sless_alt)
  have rd: "ints h (index_addr array i) = Some x"
    using Cons.prems(1) by simp
  show ?case
  proof (cases "op h v x")
    case None
    then show ?thesis
      by (subst fold_int_array_loop.simps) (simp add: less rd)
  next
    case (Some r)
    show ?thesis
    proof (cases r)
      case (Inl f)
      with Some show ?thesis
        by (subst fold_int_array_loop.simps) (simp add: less rd)
    next
      case (Inr vh)
      obtain v' h' where vh: "vh = (v', h')" by (cases vh)
      have eq: "ints h' = ints h"
        using Cons.prems(3) Some Inr vh by blast
      have "fold_int_array_loop h' array len op (i + 1) v' = thread op h' v' xs"
      proof (rule Cons.IH)
        show "array_at (ints h') (index_addr array (i + 1)) xs"
          using Cons.prems(1) by (simp add: eq)
        show "sint (i + 1) + int (length xs) = sint len"
          using Cons.prems(2) sint_succ_less [OF less] by simp
        show "\<forall>h v x v' h'. op h v x = Return (v', h') \<longrightarrow> ints h' = ints h"
          by (rule Cons.prems(3))
      qed
      with Some Inr vh show ?thesis
        by (subst fold_int_array_loop.simps) (simp add: less rd)
    qed
  qed
qed

lemma list_at_nodes_cong:
  "nodes h' = nodes h \<Longrightarrow> list_at h' l xs = list_at h l xs"
  by (induction xs arbitrary: l) (simp_all split: option.splits)

lemma fold_list_loop_thread:
  assumes "list_at h l xs"
    and "\<forall>h v x v' h'. op h v x = Return (v', h') \<longrightarrow> nodes h' = nodes h"
  shows "fold_list_loop h l v op = thread op h v xs"
  using assms
proof (induction xs arbitrary: h l v)
  case Nil
  then show ?case
    by (subst fold_list_loop.simps) simp
next
  case (Cons x xs)
  from Cons.prems(1) obtain node where l: "l \<noteq> NULL" and nd: "nodes h l = Some node"
    and nv: "node_value node = x" and tl: "list_at h (node_next node) xs"
    by (auto split: option.splits)
  show ?case
  proof (cases "op h v x")
    case None
    then show ?thesis
      by (subst fold_list_loop.simps) (simp add: l nd nv)
  next
    case (Some r)
    show ?thesis
    proof (cases r)
      case (Inl f)
      with Some show ?thesis
        by (subst fold_list_loop.simps) (simp add: l nd nv)
    next
      case (Inr vh)
      obtain v' h' where vh: "vh = (v', h')" by (cases vh)
      have eq: "nodes h' = nodes h"
        using Cons.prems(2) Some Inr vh by blast
      have "list_at h' (node_next node) xs"
        using tl by (simp add: list_at_nodes_cong [OF eq])
      then have "fold_list_loop h' (node_next node) v' op = thread op h' v' xs"
        using Cons.prems(2) by (rule Cons.IH)
      with Some Inr vh show ?thesis
        by (subst fold_list_loop.simps) (simp add: l nd nv eq)
    qed
  qed
qed

lemma fold_string_list_loop_thread:
  assumes "list_at h l xs"
    and "\<forall>h v x v' h'. op h v x = Return (v', h') \<longrightarrow> nodes h' = nodes h"
  shows "fold_string_list_loop h l v op = thread op h v xs"
  using assms
proof (induction xs arbitrary: h l v)
  case Nil
  then show ?case
    by (subst fold_string_list_loop.simps) simp
next
  case (Cons x xs)
  from Cons.prems(1) obtain node where l: "l \<noteq> NULL" and nd: "nodes h l = Some node"
    and nv: "node_value node = x" and tl: "list_at h (node_next node) xs"
    by (auto split: option.splits)
  show ?case
  proof (cases "op h v x")
    case None
    then show ?thesis
      by (subst fold_string_list_loop.simps) (simp add: l nd nv)
  next
    case (Some r)
    show ?thesis
    proof (cases r)
      case (Inl f)
      with Some show ?thesis
        by (subst fold_string_list_loop.simps) (simp add: l nd nv)
    next
      case (Inr vh)
      obtain v' h' where vh: "vh = (v', h')" by (cases vh)
      have eq: "nodes h' = nodes h"
        using Cons.prems(2) Some Inr vh by blast
      have "list_at h' (node_next node) xs"
        using tl by (simp add: list_at_nodes_cong [OF eq])
      then have "fold_string_list_loop h' (node_next node) v' op = thread op h' v' xs"
        using Cons.prems(2) by (rule Cons.IH)
      with Some Inr vh show ?thesis
        by (subst fold_string_list_loop.simps) (simp add: l nd nv eq)
    qed
  qed
qed

lemma fold_array_loop_thread:
  assumes "array_at (ptrs h) (index_addr array i) xs"
    and "sint i + int (length xs) = sint len"
    and "\<forall>h v x v' h'. op h v x = Return (v', h') \<longrightarrow> ptrs h' = ptrs h"
  shows "fold_array_loop h array len op i v = thread op h v xs"
  using assms
proof (induction xs arbitrary: h i v)
  case Nil
  then show ?case
    by (subst fold_array_loop.simps) (simp add: word_sless_alt)
next
  case (Cons x xs)
  from Cons.prems(2) have less: "i <s len"
    by (simp add: word_sless_alt)
  have rd: "ptrs h (index_addr array i) = Some x"
    using Cons.prems(1) by simp
  show ?case
  proof (cases "op h v x")
    case None
    then show ?thesis
      by (subst fold_array_loop.simps) (simp add: less rd)
  next
    case (Some r)
    show ?thesis
    proof (cases r)
      case (Inl f)
      with Some show ?thesis
        by (subst fold_array_loop.simps) (simp add: less rd)
    next
      case (Inr vh)
      obtain v' h' where vh: "vh = (v', h')" by (cases vh)
      have eq: "ptrs h' = ptrs h"
        using Cons.prems(3) Some Inr vh by blast
      have "fold_array_loop h' array len op (i + 1) v' = thread op h' v' xs"
      proof (rule Cons.IH)
        show "array_at (ptrs h') (index_addr array (i + 1)) xs"
          using Cons.prems(1) by (simp add: eq)
        show "sint (i + 1) + int (length xs) = sint len"
          using Cons.prems(2) sint_succ_less [OF less] by simp
        show "\<forall>h v x v' h'. op h v x = Return (v', h') \<longrightarrow> ptrs h' = ptrs h"
          by (rule Cons.prems(3))
      qed
      with Some Inr vh show ?thesis
        by (subst fold_array_loop.simps) (simp add: less rd)
    qed
  qed
qed

lemma sint_of_nat_length:
  assumes "n < 2 ^ 31"
  shows "sint (of_nat n :: cint) = int n"
proof -
  have "sint (of_nat n :: cint) = signed_take_bit 31 (int n)"
    using sint_sbintrunc' [where 'a = 32, of "int n"] by simp
  also have "\<dots> = int n"
    using assms by (simp add: signed_take_bit_int_eq_self)
  finally show ?thesis .
qed

lemma bind_result_Return_id [simp]:
  "bind_result m (\<lambda>(r, h'). Return (r, h')) = m"
  by (simp add: bind_result_def split: option.splits sum.splits)

lemma fold_int_array_thread:
  assumes "array_at (ints h) a xs" and "length xs < 2 ^ 31"
    and "\<forall>h v x v' h'. op h v x = Return (v', h') \<longrightarrow> ints h' = ints h"
  shows "fold_int_array h a (of_nat (length xs)) init op = thread op h init xs"
proof -
  have "sint (0 :: cint) + int (length xs) = sint (of_nat (length xs) :: cint)"
    by (simp add: sint_of_nat_length [OF assms(2)])
  moreover have "array_at (ints h) (index_addr a 0) xs"
    by (simp add: assms(1))
  ultimately show ?thesis
    unfolding fold_int_array_def
    using assms(3) by (intro fold_int_array_loop_thread)
qed

lemma fold_array_thread:
  assumes "array_at (ptrs h) a xs" and "length xs < 2 ^ 31"
    and "\<forall>h v x v' h'. op h v x = Return (v', h') \<longrightarrow> ptrs h' = ptrs h"
  shows "fold_array h a (of_nat (length xs)) init op = thread op h init xs"
proof -
  have "sint (0 :: cint) + int (length xs) = sint (of_nat (length xs) :: cint)"
    by (simp add: sint_of_nat_length [OF assms(2)])
  moreover have "array_at (ptrs h) (index_addr a 0) xs"
    by (simp add: assms(1))
  ultimately have "fold_array_loop h a (of_nat (length xs)) op 0 init = thread op h init xs"
    using assms(3) by (intro fold_array_loop_thread)
  then show ?thesis
    by (simp add: fold_array_def)
qed

lemma fold_counted_array_thread:
  assumes "counted_array_at h c xs"
    and "\<forall>h v x v' h'. op h v x = Return (v', h') \<longrightarrow> ptrs h' = ptrs h"
  shows "fold_counted_array h c init op = thread op h init xs"
proof -
  from assms(1) obtain ca where ca: "counted_arrays h c = Some ca"
    and len: "length xs < 2 ^ 31" "ca_length ca = of_nat (length xs)"
    and arr: "array_at (ptrs h) (ca_value ca) xs"
    by (auto simp: counted_array_at_def split: option.splits)
  show ?thesis
    using fold_array_thread [OF arr len(1) assms(2), of init]
    by (simp add: fold_counted_array_def ca len(2))
qed

lemma thread_count_calls:
  "length xs < 2 ^ 32 \<Longrightarrow> thread count_calls h acc xs = Return (acc + of_nat (length xs), h)"
  by (induction xs arbitrary: acc) (simp_all add: count_calls_def)

lemma thread_lift_pure:
  "thread (lift_pure f) h acc xs = Return (foldl f acc xs, h)"
  by (induction xs arbitrary: acc) (simp_all add: lift_pure_def)

lemma bind_result_eq_Return:
  "bind_result m k = Return y \<longleftrightarrow> (\<exists>x. m = Return x \<and> k x = Return y)"
  by (auto simp: bind_result_def split: option.splits sum.splits)

lemma fold_list_loop_frame:
  assumes run: "fold_list_loop h l v op = Some y"
  shows "pure_reducer op \<longrightarrow> (\<forall>r h'. y = Inr (r, h') \<longrightarrow> h' = h)"
proof (rule fold_list_loop.raw_induct [OF _ run], goal_cases)
  case (1 loop h l v op y)
  show ?case
  proof (intro allI impI)
    fix r h'
    assume pure: "pure_reducer op" and y: "y = Inr (r, h')"
    show "h' = h"
    proof (cases "l = NULL")
      case True
      with 1(2) y show ?thesis by simp
    next
      case False
      with 1(2) y obtain node v1 h1 node' where
        "nodes h l = Some node" and op: "op h v (node_value node) = Return (v1, h1)"
        and "nodes h1 l = Some node'" and rec: "loop h1 (node_next node') v1 op = Return (r, h')"
        by (auto simp: bind_result_eq_Return split: option.splits)
      from op pure have "h1 = h"
        by (auto simp: pure_reducer_def)
      moreover from 1(1) [OF rec] pure have "h' = h1"
        by simp
      ultimately show ?thesis by simp
    qed
  qed
qed

lemma fold_string_list_loop_frame:
  assumes run: "fold_string_list_loop h l v op = Some y"
  shows "pure_reducer op \<longrightarrow> (\<forall>r h'. y = Inr (r, h') \<longrightarrow> h' = h)"
proof (rule fold_string_list_loop.raw_induct [OF _ run], goal_cases)
  case (1 loop h l v op y)
  show ?case
  proof (intro allI impI)
    fix r h'
    assume pure: "pure_reducer op" and y: "y = Inr (r, h')"
    show "h' = h"
    proof (cases "l = NULL")
      case True
      with 1(2) y show ?thesis by simp
    next
      case False
      with 1(2) y obtain node v1 h1 node' where
        "nodes h l = Some node" and op: "op h v (node_value node) = Return (v1, h1)"
        and "nodes h1 l = Some node'"
        and rec: "loop h1 (node_next node') v1 op = Return (r, h')"
        by (auto simp: bind_result_eq_Return split: option.splits)
      from op pure have "h1 = h"
        by (auto simp: pure_reducer_def)
      moreover from 1(1) [OF rec] pure have "h' = h1"
        by simp
      ultimately show ?thesis by simp
    qed
  qed
qed

lemma fold_array_loop_frame:
  assumes run: "fold_array_loop h a len op i v = Some y"
  shows "pure_reducer op \<longrightarrow> (\<forall>r h'. y = Inr (r, h') \<longrightarrow> h' = h)"
proof (rule fold_array_loop.raw_induct [OF _ run], goal_cases)
  case (1 loop h a len op i v y)
  show ?case
  proof (intro allI impI)
    fix r h'
    assume pure: "pure_reducer op" and y: "y = Inr (r, h')"
    show "h' = h"
    proof (cases "i <s len")
      case False
      with 1(2) y show ?thesis by simp
    next
      case True
      with 1(2) y obtain x v1 h1 where
        "ptrs h (index_addr a i) = Some x" and op: "op h v x = Return (v1, h1)"
        and rec: "loop h1 a len op (i + 1) v1 = Return (r, h')"
        by (auto simp: bind_result_eq_Return split: option.splits)
      from op pure have "h1 = h"
        by (auto simp: pure_reducer_def)
      moreover from 1(1) [OF rec] pure have "h' = h1"
        by simp
      ultimately show ?thesis by simp
    qed
  qed
qed

lemma fold_int_array_loop_frame:
  assumes run: "fold_int_array_loop h a len op i v = Some y"
  shows "pure_reducer op \<longrightarrow> (\<forall>r h'. y = Inr (r, h') \<longrightarrow> h' = h)"
proof (rule fold_int_array_loop.raw_induct [OF _ run], goal_cases)
  case (1 loop h a len op i v y)
  show ?case
  proof (intro allI impI)
    fix r h'
    assume pure: "pure_reducer op" and y: "y = Inr (r, h')"
    show "h' = h"
    proof (cases "i <s len")
      case False
      with 1(2) y show ?thesis by simp
    next
      case True
      with 1(2) y obtain x v1 h1 where
        "ints h (index_addr a i) = Some x" and op: "op h v x = Return (v1, h1)"
        and rec: "loop h1 a len op (i + 1) v1 = Return (r, h')"
        by (auto simp: bind_result_eq_Return split: option.splits)
      from op pure have "h1 = h"
        by (auto simp: pure_reducer_def)
      moreover from 1(1) [OF rec] pure have "h' = h1"
        by simp
      ultimately show ?thesis by simp
    qed
  qed
qed

lemma fold_list_frame:
  "pure_reducer op \<Longrightarrow> fold_list h l init op = Return (r, h') \<Longrightarrow> h' = h"
  using fold_list_loop_frame [of h l init op "Inr (r, h')"] by (simp add: fold_list_def)

lemma fold_string_list_frame:
  "pure_reducer op \<Longrightarrow> fold_string_list h l init op = Return (r, h') \<Longrightarrow> h' = h"
  using fold_string_list_loop_frame [of h l init op "Inr (r, h')"]
  by (simp add: fold_string_list_def)

lemma fold_int_array_frame:
  "pure_reducer op \<Longrightarrow> fold_int_array h a len init op = Return (r, h') \<Longrightarrow> h' = h"
  using fold_int_array_loop_frame [of h a len op 0 init "Inr (r, h')"]
  by (simp add: fold_int_array_def)

lemma fold_array_frame:
  "pure_reducer op \<Longrightarrow> fold_array h a len init op = Return (r, h') \<Longrightarrow> h' = h"
  using fold_array_loop_frame [of h a len op 0 init]
  by (auto simp: fold_array_def bind_result_eq_Return)

lemma fold_counted_array_frame:
  "pure_reducer op \<Longrightarrow> fold_counted_array h c init op = Return (r, h') \<Longrightarrow> h' = h"
  using fold_array_frame [of op h _ _ init]
  by (auto simp: fold_counted_array_def bind_result_eq_Return split: option.splits)

lemma sum_array_loops_agree:
  "fold_int_array_loop h xs len sum_c i acc =
     (case sum_array_direct_loop h xs len i acc of
        Inl f \<Rightarrow> Fault f
      | Inr s \<Rightarrow> Return (s, h))"
proof (induction h xs len i acc rule: sum_array_direct_loop.induct)
  case (1 h xs len i acc)
  show ?case
  proof (cases "i <s len")
    case False
    then show ?thesis
      by (subst fold_int_array_loop.simps, subst sum_array_direct_loop.simps) simp
  next
    case True
    show ?thesis
    proof (cases "ints h (index_addr xs i)")
      case None
      with True show ?thesis
        by (subst fold_int_array_loop.simps, subst sum_array_direct_loop.simps) simp
    next
      case (Some x)
      have step: "sum_c h acc x = Return (acc + x, h)"
        by (simp add: sum_c_def)
      from True Some 1 [OF True Some] show ?thesis
        by (subst fold_int_array_loop.simps, subst sum_array_direct_loop.simps)
           (simp add: step)
    qed
  qed
qed

lemma size_list_loop_fold:
  assumes "list_at h l xs"
  shows "fold_string_list_loop h l (int_to_ptr acc) accumulate_length_as_string_binop =
     bind_result (size_list_loop h l acc) (\<lambda>n. Return (int_to_ptr n, h))"
  using assms
proof (induction xs arbitrary: l acc)
  case Nil
  then show ?case
    by (subst fold_string_list_loop.simps, subst size_list_loop.simps) simp
next
  case (Cons x xs)
  from Cons.prems obtain node where l: "l \<noteq> NULL" and nd: "nodes h l = Some node"
    and nv: "node_value node = x" and tl: "list_at h (node_next node) xs"
    by (auto split: option.splits)
  have step: "accumulate_length_as_string_binop h acc x =
      bind_result (strlen h x) (\<lambda>k. Return (acc + k, h))"
    by (simp add: accumulate_length_as_string_binop_def accumulate_length_def)
  show ?case
  proof (cases "strlen h x")
    case None
    then show ?thesis
      by (subst fold_string_list_loop.simps, subst size_list_loop.simps)
         (simp add: l nd nv step)
  next
    case (Some r)
    show ?thesis
    proof (cases r)
      case (Inl f)
      with Some show ?thesis
        by (subst fold_string_list_loop.simps, subst size_list_loop.simps)
           (simp add: l nd nv step)
    next
      case (Inr k)
      from Cons.IH [OF tl, of "acc + k"] Some Inr show ?thesis
        by (subst fold_string_list_loop.simps, subst size_list_loop.simps)
           (simp add: l nd nv step)
    qed
  qed
qed

lemma main_heap_shapes:
  "list_at main_heap 0x200 [0x100, 0x104]"
  "array_at (ptrs main_heap) 0x300 [0x110, 0x118]"
  "counted_array_at main_heap 0x400 [0x110, 0x118]"
  "array_at (ints main_heap) 0x500 [1, 2, 3, 4]"
  by (simp_all add: main_heap_def counted_array_at_def)

lemma main_heap_size_list: "size_list_c main_heap 0x200 = Return 6"
  by (simp add: size_list_c_def size_list_loop.simps strlen_def strlen_from.simps
      main_heap_def valid_char_def)

lemma main_heap_sum_direct: "sum_array_direct main_heap 0x500 4 = Inr 10"
  by (simp add: sum_array_direct_def sum_array_direct_loop.simps main_heap_def index_addr_def
      word_sless_alt)

lemma block_0 [simp]: "block p 0 = {}"
  by (simp add: block_def)

lemma block_Suc: "block p (Suc n) = insert p (block (p + 1) n)"
proof -
  have "{..<Suc n} = insert 0 (Suc ` {..<n})"
    by (rule lessThan_Suc_eq_insert_0)
  then have "block p (Suc n) = insert p ((\<lambda>i. p + of_nat (Suc i)) ` {..<n})"
    by (simp add: block_def image_image)
  also have "(\<lambda>i. p + of_nat (Suc i)) ` {..<n} = block (p + 1) n"
    by (simp add: block_def add.assoc)
  finally show ?thesis .
qed

lemma block_shift: "block (p + of_nat k) n \<subseteq> block p (k + n)"
proof
  fix a assume "a \<in> block (p + of_nat k) n"
  then obtain i where "i < n" "a = p + of_nat k + of_nat i"
    by (auto simp: block_def)
  then have "k + i < k + n" "a = p + of_nat (k + i)"
    by simp_all
  then show "a \<in> block p (k + n)"
    unfolding block_def by blast
qed

lemma block_mono: "n \<le> m \<Longrightarrow> block p n \<subseteq> block p m"
  by (auto simp: block_def)

lemma unat_of_nat32: "n < 2 ^ 32 \<Longrightarrow> unat (of_nat n :: 32 word) = n"
  by (simp add: unat_of_nat)

lemma of_nat32_inj:
  assumes "i < 2 ^ 32" and "j < 2 ^ 32" and "(of_nat i :: 32 word) = of_nat j"
  shows "i = j"
proof -
  have "unat (of_nat i :: 32 word) = unat (of_nat j :: 32 word)"
    using assms(3) by simp
  then show ?thesis
    by (simp only: unat_of_nat32 [OF assms(1)] unat_of_nat32 [OF assms(2)])
qed

lemma unat_add_of_nat32:
  assumes "unat p + i < 2 ^ 32"
  shows "unat (p + of_nat i :: 32 word) = unat p + i"
proof -
  have i: "i < 2 ^ 32" using assms by simp
  have "unat p + unat (of_nat i :: 32 word) < 2 ^ LENGTH(32)"
    using assms by (simp add: unat_of_nat32 [OF i])
  then have "unat (p + of_nat i) = unat p + unat (of_nat i :: 32 word)"
    by (rule unat_add_lem [THEN iffD1])
  then show ?thesis
    by (simp add: unat_of_nat32 [OF i])
qed

lemma block_disjoint:
  assumes "k + n \<le> 2 ^ 32"
  shows "block p k \<inter> block (p + of_nat k) n = {}"
proof (rule ccontr)
  assume "block p k \<inter> block (p + of_nat k) n \<noteq> {}"
  then obtain i j where i: "i < k" and j: "j < n"
    and eq: "p + of_nat i = p + of_nat k + (of_nat j :: ptr)"
    by (auto simp: block_def)
  from eq have "(of_nat i :: ptr) = of_nat (k + j)"
    by simp
  moreover have "i < 2 ^ 32" "k + j < 2 ^ 32"
    using i j assms by simp_all
  ultimately have "i = k + j"
    by (intro of_nat32_inj)
  with i show False by simp
qed

lemma null_not_in_block:
  assumes "p \<noteq> NULL" and "unat p + n \<le> 2 ^ 32"
  shows "NULL \<notin> block p n"
proof
  assume "NULL \<in> block p n"
  then obtain i where i: "i < n" and z: "p + of_nat i = 0"
    by (auto simp: block_def)
  have "unat p + i < 2 ^ 32"
    using i assms(2) by simp
  then have "unat (p + of_nat i) = unat p + i"
    by (rule unat_add_of_nat32)
  with z have "unat p = 0" by simp
  with assms(1) show False
    by (simp add: unat_eq_zero)
qed

lemma store_string_outside:
  "a \<notin> block d (length s + 1) \<Longrightarrow> store_string m d s a = m a"
  by (induction s arbitrary: m d) (auto simp: block_Suc)

lemma store_strings_outside:
  "a \<notin> block d (length (concat ss) + 1) \<Longrightarrow> store_strings m d ss a = m a"
proof (induction ss arbitrary: m d)
  case Nil
  then show ?case by simp
next
  case (Cons s ss)
  have "block (d + of_nat (length s)) (length (concat ss) + 1)
      \<subseteq> block d (length (concat (s # ss)) + 1)"
    using block_shift [of d "length s" "length (concat ss) + 1"] by (simp add: add.assoc)
  moreover have "block d (length s + 1) \<subseteq> block d (length (concat (s # ss)) + 1)"
    by (rule block_mono) simp
  ultimately have "a \<notin> block (d + of_nat (length s)) (length (concat ss) + 1)"
    and "a \<notin> block d (length s + 1)"
    using Cons.prems by auto
  then show ?case
    by (simp add: Cons.IH store_string_outside)
qed

lemma cstring_frame:
  assumes "cstring h0 p s" and "allocated h0 \<subseteq> allocated h"
    and "\<forall>a\<in>allocated h0. chars h a = chars h0 a"
  shows "cstring h p s"
  using assms(1)
proof (induction s arbitrary: p)
  case Nil
  with assms(2,3) show ?case by (auto simp: valid_char_def)
next
  case (Cons c s)
  with assms(2,3) show ?case by (auto simp: valid_char_def)
qed

lemma cstring_no_NUL: "cstring h p s \<Longrightarrow> NUL \<notin> set s"
  by (induction s arbitrary: p) auto

lemma strlen_from_cstring:
  "cstring h p s \<Longrightarrow> strlen_from h p n = Return (n + of_nat (length s))"
proof (induction s arbitrary: p n)
  case Nil
  then show ?case
    by (subst strlen_from.simps) simp
next
  case (Cons c s)
  from Cons.prems have "strlen_from h (p + 1) (n + 1) = Return (n + 1 + of_nat (length s))"
    by (intro Cons.IH) simp
  with Cons.prems show ?case
    by (subst strlen_from.simps) (simp add: add.assoc)
qed

lemma strlen_cstring: "cstring h p s \<Longrightarrow> strlen h p = Return (of_nat (length s))"
  by (simp add: strlen_def strlen_from_cstring)

lemma stpcpy_store:
  assumes "cstring h0 src s" and "allocated h0 \<subseteq> allocated h"
    and "\<forall>a\<in>allocated h0. chars h a = chars h0 a"
    and "block dst (length s + 1) \<subseteq> allocated h - allocated h0"
    and "NULL \<notin> block dst (length s + 1)"
  shows "stpcpy h dst src =
     Return (dst + of_nat (length s), h\<lparr>chars := store_string (chars h) dst s\<rparr>)"
  using assms
proof (induction s arbitrary: h dst src)
  case Nil
  then have "valid_char h src" "chars h src = NUL"
    by (auto simp: valid_char_def)
  moreover from Nil have "valid_char h dst"
    by (auto simp: valid_char_def block_Suc)
  ultimately show ?case
    by (subst stpcpy.simps) simp
next
  case (Cons c s)
  let ?h1 = "h\<lparr>chars := (chars h)(dst := c)\<rparr>"
  from Cons.prems have src: "valid_char h src" "chars h src = c" "c \<noteq> NUL"
    by (auto simp: valid_char_def)
  from Cons.prems have dst: "valid_char h dst" "dst \<notin> allocated h0"
    by (auto simp: valid_char_def block_Suc)
  have "stpcpy ?h1 (dst + 1) (src + 1) =
     Return (dst + 1 + of_nat (length s), ?h1\<lparr>chars := store_string (chars ?h1) (dst + 1) s\<rparr>)"
  proof (rule Cons.IH)
    show "cstring h0 (src + 1) s"
      using Cons.prems(1) by simp
    show "allocated h0 \<subseteq> allocated ?h1"
      using Cons.prems(2) by simp
    show "\<forall>a\<in>allocated h0. chars ?h1 a = chars h0 a"
      using Cons.prems(3) dst(2) by auto
    show "block (dst + 1) (length s + 1) \<subseteq> allocated ?h1 - allocated h0"
      using Cons.prems(4) by (auto simp: block_Suc)
    show "NULL \<notin> block (dst + 1) (length s + 1)"
      using Cons.prems(5) by (auto simp: block_Suc)
  qed
  with src dst(1) show ?case
    by (subst stpcpy.simps) (simp add: add.assoc)
qed

lemma holds_append:
  "holds m p (s @ t) \<longleftrightarrow> holds m p s \<and> holds m (p + of_nat (length s)) t"
  by (induction s arbitrary: p) (simp_all add: add.assoc)

lemma holds_cong:
  "\<forall>a\<in>block p (length s). m' a = m a \<Longrightarrow> holds m' p s = holds m p s"
  by (induction s arbitrary: p) (simp_all add: block_Suc)

lemma not_in_block_succ:
  assumes "n < 2 ^ 32"
  shows "d \<notin> block (d + 1) n"
proof -
  have "block d 1 \<inter> block (d + of_nat 1) n = {}"
    by (rule block_disjoint) (use assms in simp)
  moreover have "d \<in> block d 1"
    by (simp add: block_def)
  ultimately show ?thesis by auto
qed

lemma holds_store_string:
  "length s < 2 ^ 32 \<Longrightarrow> holds (store_string m d s) d (s @ [NUL])"
proof (induction s arbitrary: m d)
  case Nil
  then show ?case by simp
next
  case (Cons c s)
  have "d \<notin> block (d + 1) (length s + 1)"
    by (rule not_in_block_succ) (use Cons.prems in simp)
  then have "store_string (m(d := c)) (d + 1) s d = c"
    by (simp add: store_string_outside)
  moreover have "holds (store_string (m(d := c)) (d + 1) s) (d + 1) (s @ [NUL])"
    by (rule Cons.IH) (use Cons.prems in simp)
  ultimately show ?case by simp
qed

lemma holds_store_strings:
  assumes "ss \<noteq> []" and "length (concat ss) < 2 ^ 32"
  shows "holds (store_strings m d ss) d (concat ss @ [NUL])"
  using assms
proof (induction ss arbitrary: m d)
  case Nil
  then show ?case by simp
next
  case (Cons s ss)
  let ?m1 = "store_string m d s"
  let ?d1 = "d + of_nat (length s)"
  have len: "length s < 2 ^ 32" "length s + (length (concat ss) + 1) \<le> 2 ^ 32"
    using Cons.prems(2) by simp_all
  have first: "holds ?m1 d (s @ [NUL])"
    by (rule holds_store_string [OF len(1)])
  show ?case
  proof (cases "ss = []")
    case True
    with first show ?thesis by simp
  next
    case False
    have rest: "holds (store_strings ?m1 ?d1 ss) ?d1 (concat ss @ [NUL])"
      by (rule Cons.IH [OF False]) (use Cons.prems(2) in simp)
    have "\<forall>a\<in>block d (length s). store_strings ?m1 ?d1 ss a = ?m1 a"
    proof
      fix a assume "a \<in> block d (length s)"
      with block_disjoint [OF len(2), of d]
      have "a \<notin> block ?d1 (length (concat ss) + 1)" by auto
      then show "store_strings ?m1 ?d1 ss a = ?m1 a"
        by (rule store_strings_outside)
    qed
    then have "holds (store_strings ?m1 ?d1 ss) d s = holds ?m1 d s"
      by (rule holds_cong)
    with first have "holds (store_strings ?m1 ?d1 ss) d s"
      by (simp add: holds_append)
    with rest show ?thesis
      by (simp add: holds_append)
  qed
qed

lemma cstring_holds:
  assumes "holds (chars h) p (s @ [NUL])" and "NUL \<notin> set s"
    and "\<forall>a\<in>block p (length s + 1). valid_char h a"
  shows "cstring h p s"
  using assms
  by (induction s arbitrary: p) (auto simp: block_Suc)

lemma accumulate_length_helper_cstring:
  "cstring h x s \<Longrightarrow> accumulate_length_helper h acc x = Return (acc + of_nat (length s), h)"
  by (simp add: accumulate_length_helper_def accumulate_length_def strlen_cstring)

lemma thread_accumulate_length:
  "list_all2 (cstring h) xs ss \<Longrightarrow>
   thread accumulate_length_helper h acc xs = Return (acc + of_nat (length (concat ss)), h)"
proof (induction xs ss arbitrary: acc rule: list_all2_induct)
  case Nil
  then show ?case by simp
next
  case (Cons x xs s ss)
  then show ?case
    by (simp add: accumulate_length_helper_cstring add.assoc)
qed

lemma thread_stpcpy:
  assumes "list_all2 (cstring h0) xs ss" and "allocated h0 \<subseteq> allocated h"
    and "\<forall>a\<in>allocated h0. chars h a = chars h0 a"
    and "block d (length (concat ss) + 1) \<subseteq> allocated h - allocated h0"
    and "NULL \<notin> block d (length (concat ss) + 1)"
  shows "thread stpcpy h d xs =
     Return (d + of_nat (length (concat ss)), h\<lparr>chars := store_strings (chars h) d ss\<rparr>)"
  using assms
proof (induction xs ss arbitrary: h d rule: list_all2_induct)
  case Nil
  then show ?case by simp
next
  case (Cons x xs s ss)
  let ?h1 = "h\<lparr>chars := store_string (chars h) d s\<rparr>"
  let ?d1 = "d + of_nat (length s)"
  have sub1: "block d (length s + 1) \<subseteq> block d (length (concat (s # ss)) + 1)"
    by (rule block_mono) simp
  have sub2: "block ?d1 (length (concat ss) + 1) \<subseteq> block d (length (concat (s # ss)) + 1)"
    using block_shift [of d "length s" "length (concat ss) + 1"] by (simp add: add.assoc)
  have first: "stpcpy h d x = Return (?d1, ?h1)"
    by (rule stpcpy_store [OF Cons.hyps(1) Cons.prems(1,2)])
       (use Cons.prems(3,4) sub1 in auto)
  have "thread stpcpy ?h1 ?d1 xs =
     Return (?d1 + of_nat (length (concat ss)), ?h1\<lparr>chars := store_strings (chars ?h1) ?d1 ss\<rparr>)"
  proof (rule Cons.IH)
    show "allocated h0 \<subseteq> allocated ?h1"
      using Cons.prems(1) by simp
    show "\<forall>a\<in>allocated h0. chars ?h1 a = chars h0 a"
    proof
      fix a assume a: "a \<in> allocated h0"
      with Cons.prems(3) sub1 have "a \<notin> block d (length s + 1)" by auto
      then show "chars ?h1 a = chars h0 a"
        using Cons.prems(2) a by (simp add: store_string_outside)
    qed
    show "block ?d1 (length (concat ss) + 1) \<subseteq> allocated ?h1 - allocated h0"
      using Cons.prems(3) sub2 by auto
    show "NULL \<notin> block ?d1 (length (concat ss) + 1)"
      using Cons.prems(4) sub2 by auto
  qed
  with first show ?case
    by (simp add: add.assoc)
qed

lemma stpcpy_writes_chars_only:
  assumes run: "stpcpy h d s = Some y"
  shows "\<forall>r h'. y = Inr (r, h') \<longrightarrow> (\<exists>m. h' = h\<lparr>chars := m\<rparr>)"
proof (rule stpcpy.raw_induct [OF _ run], goal_cases)
  case (1 cpy h d s y)
  show ?case
  proof (intro allI impI)
    fix r h'
    assume y: "y = Inr (r, h')"
    show "\<exists>m. h' = h\<lparr>chars := m\<rparr>"
    proof (cases "chars h s = NUL")
      case True
      with 1(2) y show ?thesis
        by (auto split: if_splits)
    next
      case False
      with 1(2) y have "cpy (h\<lparr>chars := (chars h)(d := chars h s)\<rparr>) (d + 1) (s + 1) = Return (r, h')"
        by (auto split: if_splits)
      from 1(1) [OF this] obtain m where "h' = h\<lparr>chars := (chars h)(d := chars h s)\<rparr>\<lparr>chars := m\<rparr>"
        by auto
      then show ?thesis by auto
    qed
  qed
qed

lemma stpcpy_leaves_sequences:
  "stpcpy h d s = Return (r, h') \<Longrightarrow>
   nodes h' = nodes h \<and> ptrs h' = ptrs h \<and> ints h' = ints h \<and>
   counted_arrays h' = counted_arrays h"
  using stpcpy_writes_chars_only [of h d s "Inr (r, h')"] by auto

lemma accumulate_length_helper_pure:
  "accumulate_length_helper h acc x = Return (r, h') \<Longrightarrow> h' = h"
  by (auto simp: accumulate_length_helper_def accumulate_length_def bind_result_eq_Return)

lemma unat_total_plus_1:
  assumes "n < 2 ^ 31"
  shows "unat (of_nat n + 1 :: 32 word) = n + 1"
proof -
  have "unat (of_nat (n + 1) :: 32 word) = n + 1"
    by (rule unat_of_nat32) (use assms in simp)
  then show ?thesis by (simp add: add.commute)
qed

lemma concat_c_generic:
  assumes strs: "list_all2 (cstring h) xs ss"
    and len: "length (concat ss) < 2 ^ 31"
    and ms: "malloc_spec h (of_nat (length (concat ss)) + 1) p" and p: "p \<noteq> NULL"
    and f1: "fold' h coll NULL accumulate_length_helper =
      thread accumulate_length_helper h NULL xs"
    and f2: "fold' (h\<lparr>allocated := allocated h \<union> block p (length (concat ss) + 1)\<rparr>) coll p stpcpy =
      thread stpcpy (h\<lparr>allocated := allocated h \<union> block p (length (concat ss) + 1)\<rparr>) p xs"
  shows "concat_c fold' h coll p = Return (p, concat_result h p ss)"
proof -
  let ?n = "length (concat ss)"
  let ?h1 = "h\<lparr>allocated := allocated h \<union> block p (?n + 1)\<rparr>"
  have sz: "unat (of_nat ?n + 1 :: 32 word) = ?n + 1"
    by (rule unat_total_plus_1 [OF len])
  from ms p sz have fresh: "block p (?n + 1) \<inter> allocated h = {}" and nowrap: "unat p + (?n + 1) \<le> 2 ^ 32"
    by (simp_all add: malloc_spec_def)
  have 1: "fold' h coll NULL accumulate_length_helper = Return (of_nat ?n, h)"
    using thread_accumulate_length [OF strs, of 0] by (simp add: f1)
  have 2: "malloc h (ptr_to_size (of_nat ?n + 1)) p = (p, ?h1)"
    using p sz by (simp add: malloc_def)
  have "thread stpcpy ?h1 p xs =
      Return (p + of_nat ?n, ?h1\<lparr>chars := store_strings (chars ?h1) p ss\<rparr>)"
  proof (rule thread_stpcpy [OF strs])
    show "allocated h \<subseteq> allocated ?h1" by simp
    show "\<forall>a\<in>allocated h. chars ?h1 a = chars h a" by simp
    show "block p (?n + 1) \<subseteq> allocated ?h1 - allocated h"
      using fresh by auto
    show "NULL \<notin> block p (?n + 1)"
      by (rule null_not_in_block [OF p nowrap])
  qed
  with f2 have 3: "fold' ?h1 coll p stpcpy = Return (p + of_nat ?n, concat_result h p ss)"
    by (simp add: concat_result_def)
  from 1 2 3 show ?thesis
    by (simp add: concat_c_def)
qed

lemma concat_result_cstring:
  assumes strs: "list_all2 (cstring h) xs ss" and ne: "xs \<noteq> []"
    and len: "length (concat ss) < 2 ^ 31"
    and ms: "malloc_spec h (of_nat (length (concat ss)) + 1) p" and p: "p \<noteq> NULL"
  shows "cstring (concat_result h p ss) p (concat ss)"
proof (rule cstring_holds)
  let ?n = "length (concat ss)"
  have sz: "unat (of_nat ?n + 1 :: 32 word) = ?n + 1"
    by (rule unat_total_plus_1 [OF len])
  from ms p sz have nowrap: "unat p + (?n + 1) \<le> 2 ^ 32"
    by (simp add: malloc_spec_def)
  from strs ne have "ss \<noteq> []" by auto
  moreover have "?n < 2 ^ 32" using len by simp
  ultimately show "holds (chars (concat_result h p ss)) p (concat ss @ [NUL])"
    by (simp add: concat_result_def holds_store_strings)
  show "NUL \<notin> set (concat ss)"
    using strs by (induction rule: list_all2_induct) (auto dest: cstring_no_NUL)
  show "\<forall>a\<in>block p (?n + 1). valid_char (concat_result h p ss) a"
    using null_not_in_block [OF p nowrap] by (auto simp: valid_char_def concat_result_def)
qed

lemma concat_result_frame:
  assumes "malloc_spec h (of_nat (length (concat ss)) + 1) p" and "p \<noteq> NULL"
    and "length (concat ss) < 2 ^ 31"
  shows "\<forall>a\<in>allocated h. chars (concat_result h p ss) a = chars h a"
proof
  fix a assume a: "a \<in> allocated h"
  have "unat (of_nat (length (concat ss)) + 1 :: 32 word) = length (concat ss) + 1"
    by (rule unat_total_plus_1 [OF assms(3)])
  with assms(1,2) have "block p (length (concat ss) + 1) \<inter> allocated h = {}"
    by (simp add: malloc_spec_def)
  with a have "a \<notin> block p (length (concat ss) + 1)" by auto
  then show "chars (concat_result h p ss) a = chars h a"
    by (simp add: concat_result_def store_strings_outside)
qed

lemma leaves_sequences_helper: "leaves_sequences accumulate_length_helper"
  unfolding leaves_sequences_def using accumulate_length_helper_pure by blast

lemma leaves_sequences_stpcpy: "leaves_sequences stpcpy"
  unfolding leaves_sequences_def using stpcpy_leaves_sequences by blast

lemma string_binops_are_binops:
  "accumulate_length_as_string_binop = accumulate_length_helper"
  "stpcpy_as_string_binop = stpcpy"
  by (intro ext, simp add: accumulate_length_as_string_binop_def accumulate_length_helper_def
      stpcpy_as_string_binop_def)+

lemma thread_pure_frame:
  assumes "\<forall>h a x r h'. op h a x = Return (r, h') \<longrightarrow> h' = h"
  shows "thread op h a xs = Return (r, h') \<Longrightarrow> h' = h"
proof (induction xs arbitrary: a)
  case Nil
  then show ?case by simp
next
  case (Cons x xs)
  from Cons.prems obtain a1 h1 where 1: "op h a x = Return (a1, h1)"
    and 2: "thread op h1 a1 xs = Return (r, h')"
    by (auto simp: bind_result_eq_Return)
  from 1 assms have "h1 = h" by blast
  with 2 Cons.IH show ?case by blast
qed

lemma fold_list_thread_alloc:
  assumes "list_at h l xs" and "leaves_sequences op"
  shows "fold_list (h\<lparr>allocated := A\<rparr>) l v op = thread op (h\<lparr>allocated := A\<rparr>) v xs"
proof -
  have "list_at (h\<lparr>allocated := A\<rparr>) l xs"
    using assms(1) by (simp add: list_at_nodes_cong [of "h\<lparr>allocated := A\<rparr>" h])
  moreover have "\<forall>h v x v' h'. op h v x = Return (v', h') \<longrightarrow> nodes h' = nodes h"
    using assms(2) unfolding leaves_sequences_def by blast
  ultimately show ?thesis
    unfolding fold_list_def by (rule fold_list_loop_thread)
qed

lemma fold_string_list_thread_alloc:
  assumes "list_at h l xs" and "leaves_sequences op"
  shows "fold_string_list (h\<lparr>allocated := A\<rparr>) l v op = thread op (h\<lparr>allocated := A\<rparr>) v xs"
proof -
  have "list_at (h\<lparr>allocated := A\<rparr>) l xs"
    using assms(1) by (simp add: list_at_nodes_cong [of "h\<lparr>allocated := A\<rparr>" h])
  moreover have "\<forall>h v x v' h'. op h v x = Return (v', h') \<longrightarrow> nodes h' = nodes h"
    using assms(2) unfolding leaves_sequences_def by blast
  ultimately show ?thesis
    unfolding fold_string_list_def by (rule fold_string_list_loop_thread)
qed

lemma fold_counted_array_thread_alloc:
  assumes "counted_array_at h c xs" and "leaves_sequences op"
  shows "fold_counted_array (h\<lparr>allocated := A\<rparr>) c v op = thread op (h\<lparr>allocated := A\<rparr>) v xs"
proof -
  have "counted_array_at (h\<lparr>allocated := A\<rparr>) c xs"
    using assms(1) by (simp add: counted_array_at_def split: option.splits)
  moreover have "\<forall>h v x v' h'. op h v x = Return (v', h') \<longrightarrow> ptrs h' = ptrs h"
    using assms(2) unfolding leaves_sequences_def by blast
  ultimately show ?thesis
    by (rule fold_counted_array_thread)
qed

lemma malloc_cases:
  "malloc h n p = (p, h\<lparr>allocated := (if p = NULL then allocated h else allocated h \<union> block p (unat n))\<rparr>)"
  by (simp add: malloc_def)

lemma concat_c_via_thread:
  assumes F: "\<And>A v op. leaves_sequences op \<Longrightarrow>
      fold' (h\<lparr>allocated := A\<rparr>) coll v op = thread op (h\<lparr>allocated := A\<rparr>) v xs"
  shows "concat_c fold' h coll p =
     bind_result (thread accumulate_length_helper h NULL xs)
       (\<lambda>(n, h0). bind_result (thread stpcpy (snd (malloc h (n + 1) p)) p xs)
          (\<lambda>(r, h2). Return (p, h2)))"
proof -
  have f1: "fold' h coll NULL accumulate_length_helper = thread accumulate_length_helper h NULL xs"
    using F [OF leaves_sequences_helper, of "allocated h" NULL] by simp
  show ?thesis
  proof (cases "thread accumulate_length_helper h NULL xs")
    case None
    then show ?thesis by (simp add: concat_c_def f1)
  next
    case (Some y)
    show ?thesis
    proof (cases y)
      case (Inl f)
      with Some show ?thesis by (simp add: concat_c_def f1)
    next
      case (Inr nh)
      obtain n h0 where nh: "nh = (n, h0)" by (cases nh)
      have h0: "h0 = h"
        using thread_pure_frame [of accumulate_length_helper h NULL xs n h0]
          accumulate_length_helper_pure Some Inr nh by blast
      let ?A = "if p = NULL then allocated h else allocated h \<union> block p (unat (n + 1))"
      have "fold' (h\<lparr>allocated := ?A\<rparr>) coll p stpcpy = thread stpcpy (h\<lparr>allocated := ?A\<rparr>) p xs"
        by (rule F [OF leaves_sequences_stpcpy])
      with Some Inr nh h0 show ?thesis
        by (simp add: concat_c_def f1 malloc_cases)
    qed
  qed
qed

lemma concat_string_list_via_thread:
  assumes l: "list_at h l xs" and p: "p \<noteq> NULL \<or> xs = []"
  shows "concat_string_list h l p =
     bind_result (thread accumulate_length_helper h NULL xs)
       (\<lambda>(n, h0). bind_result (thread stpcpy (snd (malloc h (n + 1) p)) p xs)
          (\<lambda>(r, h2). Return (p, h2)))"
proof -
  have f1: "fold_string_list h l NULL accumulate_length_helper =
      thread accumulate_length_helper h NULL xs"
    using fold_string_list_thread_alloc [OF l leaves_sequences_helper, of "allocated h" NULL]
    by simp
  show ?thesis
  proof (cases "thread accumulate_length_helper h NULL xs")
    case None
    then show ?thesis by (simp add: concat_string_list_def f1 string_binops_are_binops)
  next
    case (Some y)
    show ?thesis
    proof (cases y)
      case (Inl f)
      with Some show ?thesis by (simp add: concat_string_list_def f1 string_binops_are_binops)
    next
      case (Inr nh)
      obtain n h0 where nh: "nh = (n, h0)" by (cases nh)
      have h0: "h0 = h"
        using thread_pure_frame [of accumulate_length_helper h NULL xs n h0]
          accumulate_length_helper_pure Some Inr nh by blast
      let ?A = "if p = NULL then allocated h else allocated h \<union> block p (unat (n + 1))"
      have "fold_string_list (h\<lparr>allocated := ?A\<rparr>) l p stpcpy =
          thread stpcpy (h\<lparr>allocated := ?A\<rparr>) p xs"
        by (rule fold_string_list_thread_alloc [OF l leaves_sequences_stpcpy])
      with Some Inr nh h0 p show ?thesis
        by (auto simp: concat_string_list_def f1 malloc_cases string_binops_are_binops)
    qed
  qed
qed

lemma concat_c_list:
  assumes "list_at h l xs" and "list_all2 (cstring h) xs ss"
    and "length (concat ss) < 2 ^ 31"
    and "malloc_spec h (of_nat (length (concat ss)) + 1) p" and "p \<noteq> NULL"
  shows "concat_c fold_list h l p = Return (p, concat_result h p ss)"
proof (rule concat_c_generic [OF assms(2-5)])
  show "fold_list h l NULL accumulate_length_helper = thread accumulate_length_helper h NULL xs"
    using fold_list_thread_alloc [OF assms(1) leaves_sequences_helper, of "allocated h" NULL]
    by simp
  show "fold_list (h\<lparr>allocated := allocated h \<union> block p (length (concat ss) + 1)\<rparr>) l p stpcpy =
      thread stpcpy (h\<lparr>allocated := allocated h \<union> block p (length (concat ss) + 1)\<rparr>) p xs"
    by (rule fold_list_thread_alloc [OF assms(1) leaves_sequences_stpcpy])
qed

lemma concat_c_counted_array:
  assumes "counted_array_at h c xs" and "list_all2 (cstring h) xs ss"
    and "length (concat ss) < 2 ^ 31"
    and "malloc_spec h (of_nat (length (concat ss)) + 1) p" and "p \<noteq> NULL"
  shows "concat_c fold_counted_array h c p = Return (p, concat_result h p ss)"
proof (rule concat_c_generic [OF assms(2-5)])
  show "fold_counted_array h c NULL accumulate_length_helper =
      thread accumulate_length_helper h NULL xs"
    using fold_counted_array_thread_alloc [OF assms(1) leaves_sequences_helper, of "allocated h" NULL]
    by simp
  show "fold_counted_array (h\<lparr>allocated := allocated h \<union> block p (length (concat ss) + 1)\<rparr>) c p stpcpy =
      thread stpcpy (h\<lparr>allocated := allocated h \<union> block p (length (concat ss) + 1)\<rparr>) p xs"
    by (rule fold_counted_array_thread_alloc [OF assms(1) leaves_sequences_stpcpy])
qed

lemma block_numeral:
  "block p (numeral k) = insert p (block (p + 1) (pred_numeral k))"
  "block p (Suc 0) = {p}"
  by (simp_all add: numeral_eq_Suc block_Suc)

lemma main_heap_strings:
  "cstring main_heap 0x100 ''foo''" "cstring main_heap 0x104 ''bar''"
  "cstring main_heap 0x110 ''hello''" "cstring main_heap 0x118 ''world''"
  by (simp_all add: main_heap_def valid_char_def)

lemma main_heap_malloc:
  "malloc_spec main_heap 7 0x600" "malloc_spec main_heap 11 0x600" "malloc_spec main_heap 1 0x600"
  by (simp_all add: malloc_spec_def main_heap_def block_numeral)

lemma fold_list_NULL: "fold_list h NULL init op = Return (init, h)"
  unfolding fold_list_def by (subst fold_list_loop.simps) simp

lemma main_heap_first_pass:
  "thread accumulate_length_helper main_heap NULL [0x100, 0x104] = Return (6, main_heap)"
  using thread_accumulate_length [of main_heap "[0x100, 0x104]" "[''foo'', ''bar'']" NULL]
    main_heap_strings
  by simp

lemma main_heap_first_pass_array:
  "thread accumulate_length_helper main_heap NULL [0x110, 0x118] = Return (10, main_heap)"
  using thread_accumulate_length [of main_heap "[0x110, 0x118]" "[''hello'', ''world'']" NULL]
    main_heap_strings
  by simp

lemma stpcpy_to_NULL:
  "valid_char h src \<Longrightarrow> stpcpy h NULL src = Fault (InvalidWrite NULL)"
  by (subst stpcpy.simps) (simp add: valid_char_def)

lemma main_heap_concat_list_NULL:
  "concat_c fold_list main_heap 0x200 NULL = Fault (InvalidWrite NULL)"
proof -
  have "valid_char main_heap 0x100"
    by (simp add: main_heap_def valid_char_def)
  then have "thread stpcpy main_heap NULL [0x100, 0x104] = Fault (InvalidWrite NULL)"
    by (simp add: stpcpy_to_NULL)
  then show ?thesis
    using concat_c_via_thread [where fold' = fold_list and h = main_heap and coll = "0x200"
        and xs = "[0x100, 0x104]" and p = NULL,
        OF fold_list_thread_alloc [OF main_heap_shapes(1)]] main_heap_first_pass
    by (simp add: malloc_def)
qed

lemma main_heap_concat_array_NULL:
  "concat_c fold_counted_array main_heap 0x400 NULL = Fault (InvalidWrite NULL)"
proof -
  have "valid_char main_heap 0x110"
    by (simp add: main_heap_def valid_char_def)
  then have "thread stpcpy main_heap NULL [0x110, 0x118] = Fault (InvalidWrite NULL)"
    by (simp add: stpcpy_to_NULL)
  then show ?thesis
    using concat_c_via_thread [where fold' = fold_counted_array and h = main_heap
        and coll = "0x400" and xs = "[0x110, 0x118]" and p = NULL,
        OF fold_counted_array_thread_alloc [OF main_heap_shapes(3)]] main_heap_first_pass_array
    by (simp add: malloc_def)
qed

lemma main_heap_concat_string_list_NULL:
  "concat_string_list main_heap 0x200 NULL = Return (NULL, main_heap)"
proof -
  have "fold_string_list main_heap 0x200 NULL accumulate_length_helper =
      thread accumulate_length_helper main_heap NULL [0x100, 0x104]"
    using fold_string_list_thread_alloc [OF main_heap_shapes(1) leaves_sequences_helper,
        of "allocated main_heap" NULL]
    by simp
  with main_heap_first_pass show ?thesis
    by (simp add: concat_string_list_def string_binops_are_binops malloc_def)
qed

lemma main_heap_concat_list_fn_NULL:
  "concat_list main_heap 0x200 NULL = Return (NULL, main_heap)"
  by (simp add: concat_list_def main_heap_size_list malloc_def)

lemma twin_heap_facts:
  "list_at twin_heap 0x200 [0x100, 0x104]"
  "counted_array_at twin_heap 0x410 [0x100, 0x104]"
  "counted_array_at twin_heap 0x420 [0x120, 0x124]"
  "list_all2 (cstring twin_heap) [0x100, 0x104] [''foo'', ''bar'']"
  "list_all2 (cstring twin_heap) [0x120, 0x124] [''foo'', ''bar'']"
  "malloc_spec twin_heap 7 0x600"
  by (simp_all add: twin_heap_def main_heap_def counted_array_at_def malloc_spec_def
      block_numeral valid_char_def)

section \<open>Claims\<close>

text \<open>
  C1. The claim fails on the code at the empty sequence. On the empty list \<^verbatim>\<open>malloc(1)\<close>
  succeeds and \<^verbatim>\<open>concat\<close> returns the buffer \<open>p\<close>, but the second fold makes no call of
  \<^verbatim>\<open>stpcpy\<close>, the only code that writes a terminator: the byte at \<open>p\<close> is what it was
  before the call (here \<^verbatim>\<open>'?'\<close>), so the string of length 0 that the claim promises does
  not stand at \<open>p\<close>. The program means the result to be terminated: it allocates one
  byte more than the total length and \<^verbatim>\<open>main\<close> hands the result to \<^verbatim>\<open>strcmp\<close>.
\<close>

theorem concat_empty_list_unterminated:
  "list_at main_heap NULL [] \<and>
   list_all2 (cstring main_heap) [] [] \<and>
   malloc_spec main_heap (of_nat (length (concat ([] :: string list))) + 1) 0x600 \<and>
   (0x600 :: ptr) \<noteq> NULL \<and>
   concat_c fold_list main_heap NULL 0x600 =
     Return (0x600, main_heap\<lparr>allocated := allocated main_heap \<union> {0x600}\<rparr>) \<and>
   chars (main_heap\<lparr>allocated := allocated main_heap \<union> {0x600}\<rparr>) 0x600 = CHR ''?'' \<and>
   \<not> cstring (main_heap\<lparr>allocated := allocated main_heap \<union> {0x600}\<rparr>) 0x600
       (concat ([] :: string list))"
proof -
  have 1: "malloc_spec main_heap (of_nat (length (concat ([] :: string list))) + 1) 0x600"
    using main_heap_malloc(3) by simp
  have 2: "concat_c fold_list main_heap NULL 0x600 =
     Return (0x600, main_heap\<lparr>allocated := allocated main_heap \<union> {0x600}\<rparr>)"
    by (simp add: concat_c_def fold_list_NULL malloc_def block_numeral)
  have 3: "chars (main_heap\<lparr>allocated := allocated main_heap \<union> {0x600}\<rparr>) 0x600 = CHR ''?''"
    by (simp add: main_heap_def)
  from 1 2 3 show ?thesis by simp
qed

text \<open>
  C2. The claim fails for \<^verbatim>\<open>concat\<close>. When \<^verbatim>\<open>malloc\<close> returns \<open>NULL\<close> on the list and on the
  counted array of \<^verbatim>\<open>main\<close>, \<^verbatim>\<open>concat\<close> does not return \<open>NULL\<close>: its second fold hands the
  \<open>NULL\<close> buffer to \<^verbatim>\<open>stpcpy\<close>, which writes through it. \<^verbatim>\<open>concat_string_list\<close> and
  \<^verbatim>\<open>concat_list\<close> test the pointer, return \<open>NULL\<close> and leave memory as it was.
\<close>

theorem concat_failed_allocation:
  "concat_c fold_list main_heap 0x200 NULL = Fault (InvalidWrite NULL) \<and>
   concat_c fold_counted_array main_heap 0x400 NULL = Fault (InvalidWrite NULL) \<and>
   concat_string_list main_heap 0x200 NULL = Return (NULL, main_heap) \<and>
   concat_list main_heap 0x200 NULL = Return (NULL, main_heap)"
  using main_heap_concat_list_NULL main_heap_concat_array_NULL
    main_heap_concat_string_list_NULL main_heap_concat_list_fn_NULL
  by simp

text \<open>
  C3. Each fold visits the elements left to right in storage order and threads the
  accumulator: for a reducer that leaves the sequences in memory alone, the outcome of
  the fold over a sequence holding \<open>xs\<close> is \<open>thread op h init xs\<close>, that is
  \<open>op (... (op (op init e1) e2) ...) en\<close> with the memory handed from call to call.
  The reducer is invoked once per element: the reducer \<open>count_calls\<close>, which adds one to
  the accumulator at every call, started at 0 returns the number of elements.
  (\<^verbatim>\<open>fold_string_list\<close> converts each \<^verbatim>\<open>int\<close> the reducer returns to its \<^verbatim>\<open>char*\<close>
  accumulator, and \<^verbatim>\<open>fold_array\<close> returns its \<^verbatim>\<open>void*\<close> accumulator as \<^verbatim>\<open>int\<close>; both
  conversions are the identity on the data model of this theory.)
\<close>

theorem folds_thread_reducer:
  assumes "leaves_sequences op"
  shows
    "(array_at (ints h) a xs \<and> length xs < 2 ^ 31 \<longrightarrow>
        fold_int_array h a (of_nat (length xs)) init op = thread op h init xs \<and>
        fold_int_array h a (of_nat (length xs)) 0 count_calls = Return (of_nat (length xs), h)) \<and>
     (list_at h l xs \<longrightarrow>
        fold_string_list h l init op = thread op h init xs \<and>
        (length xs < 2 ^ 32 \<longrightarrow>
           fold_string_list h l 0 count_calls = Return (of_nat (length xs), h))) \<and>
     (list_at h l xs \<longrightarrow>
        fold_list h l init op = thread op h init xs \<and>
        (length xs < 2 ^ 32 \<longrightarrow>
           fold_list h l 0 count_calls = Return (of_nat (length xs), h))) \<and>
     (array_at (ptrs h) a xs \<and> length xs < 2 ^ 31 \<longrightarrow>
        fold_array h a (of_nat (length xs)) init op = thread op h init xs \<and>
        fold_array h a (of_nat (length xs)) 0 count_calls = Return (of_nat (length xs), h)) \<and>
     (counted_array_at h c xs \<longrightarrow>
        fold_counted_array h c init op = thread op h init xs \<and>
        fold_counted_array h c 0 count_calls = Return (of_nat (length xs), h))"
proof -
  have cc: "leaves_sequences count_calls"
    by (simp add: leaves_sequences_def count_calls_def)
  have n: "\<And>op. leaves_sequences op \<Longrightarrow>
      \<forall>h v x v' h'. op h v x = Return (v', h') \<longrightarrow> nodes h' = nodes h"
    unfolding leaves_sequences_def by blast
  have p: "\<And>op. leaves_sequences op \<Longrightarrow>
      \<forall>h v x v' h'. op h v x = Return (v', h') \<longrightarrow> ptrs h' = ptrs h"
    unfolding leaves_sequences_def by blast
  have i: "\<And>op. leaves_sequences op \<Longrightarrow>
      \<forall>h v x v' h'. op h v x = Return (v', h') \<longrightarrow> ints h' = ints h"
    unfolding leaves_sequences_def by blast
  have cnt: "length xs < 2 ^ 32 \<Longrightarrow> thread count_calls h 0 xs = Return (of_nat (length xs), h)"
    using thread_count_calls [of xs h 0] by simp
  have cnt': "length xs < 2 ^ 31 \<Longrightarrow> thread count_calls h 0 xs = Return (of_nat (length xs), h)"
    using cnt by simp
  have 1: "array_at (ints h) a xs \<and> length xs < 2 ^ 31 \<longrightarrow>
        fold_int_array h a (of_nat (length xs)) init op = thread op h init xs \<and>
        fold_int_array h a (of_nat (length xs)) 0 count_calls = Return (of_nat (length xs), h)"
    using fold_int_array_thread [OF _ _ i [OF assms], of h a xs init]
      fold_int_array_thread [OF _ _ i [OF cc], of h a xs 0] cnt'
    by simp
  have 2: "list_at h l xs \<longrightarrow>
        fold_string_list h l init op = thread op h init xs \<and>
        (length xs < 2 ^ 32 \<longrightarrow>
           fold_string_list h l 0 count_calls = Return (of_nat (length xs), h))"
    using fold_string_list_loop_thread [OF _ n [OF assms], of h l xs init]
      fold_string_list_loop_thread [OF _ n [OF cc], of h l xs 0] cnt
    by (simp add: fold_string_list_def)
  have 3: "list_at h l xs \<longrightarrow>
        fold_list h l init op = thread op h init xs \<and>
        (length xs < 2 ^ 32 \<longrightarrow>
           fold_list h l 0 count_calls = Return (of_nat (length xs), h))"
    using fold_list_loop_thread [OF _ n [OF assms], of h l xs init]
      fold_list_loop_thread [OF _ n [OF cc], of h l xs 0] cnt
    by (simp add: fold_list_def)
  have 4: "array_at (ptrs h) a xs \<and> length xs < 2 ^ 31 \<longrightarrow>
        fold_array h a (of_nat (length xs)) init op = thread op h init xs \<and>
        fold_array h a (of_nat (length xs)) 0 count_calls = Return (of_nat (length xs), h)"
    using fold_array_thread [OF _ _ p [OF assms], of h a xs init]
      fold_array_thread [OF _ _ p [OF cc], of h a xs 0] cnt'
    by simp
  have 5: "counted_array_at h c xs \<longrightarrow>
        fold_counted_array h c init op = thread op h init xs \<and>
        fold_counted_array h c 0 count_calls = Return (of_nat (length xs), h)"
  proof
    assume ca: "counted_array_at h c xs"
    then have "length xs < 2 ^ 31"
      by (auto simp: counted_array_at_def split: option.splits)
    with ca show "fold_counted_array h c init op = thread op h init xs \<and>
        fold_counted_array h c 0 count_calls = Return (of_nat (length xs), h)"
      using fold_counted_array_thread [OF ca p [OF assms], of init]
        fold_counted_array_thread [OF ca p [OF cc], of 0] cnt'
      by simp
  qed
  from 1 2 3 4 5 show ?thesis by blast
qed

theorem folds_thread_reducer_witness:
  "leaves_sequences (lift_pure (\<lambda>v x. 3 * v + x)) \<and>
   array_at (ints main_heap) 0x500 [1, 2, 3, 4] \<and>
   fold_int_array main_heap 0x500 4 1 (lift_pure (\<lambda>v x. 3 * v + x)) = Return (139, main_heap) \<and>
   fold_int_array main_heap 0x500 4 0 count_calls = Return (4, main_heap) \<and>
   list_at main_heap 0x200 [0x100, 0x104] \<and>
   fold_string_list main_heap 0x200 1 (lift_pure (\<lambda>v x. 3 * v + x)) = Return (1037, main_heap) \<and>
   fold_string_list main_heap 0x200 0 count_calls = Return (2, main_heap) \<and>
   fold_list main_heap 0x200 1 (lift_pure (\<lambda>v x. 3 * v + x)) = Return (1037, main_heap) \<and>
   fold_list main_heap 0x200 0 count_calls = Return (2, main_heap) \<and>
   array_at (ptrs main_heap) 0x300 [0x110, 0x118] \<and>
   fold_array main_heap 0x300 2 1 (lift_pure (\<lambda>v x. 3 * v + x)) = Return (1105, main_heap) \<and>
   fold_array main_heap 0x300 2 0 count_calls = Return (2, main_heap) \<and>
   counted_array_at main_heap 0x400 [0x110, 0x118] \<and>
   fold_counted_array main_heap 0x400 1 (lift_pure (\<lambda>v x. 3 * v + x)) = Return (1105, main_heap) \<and>
   fold_counted_array main_heap 0x400 0 count_calls = Return (2, main_heap)"
proof -
  let ?op = "lift_pure (\<lambda>v x. 3 * v + x)"
  have ls: "leaves_sequences ?op"
    by (simp add: leaves_sequences_def lift_pure_def)
  note t = folds_thread_reducer [OF ls, where h = main_heap and init = 1]
  have i: "fold_int_array main_heap 0x500 4 1 ?op = Return (139, main_heap) \<and>
      fold_int_array main_heap 0x500 4 0 count_calls = Return (4, main_heap)"
    using t [where a = "0x500" and xs = "[1, 2, 3, 4]"] main_heap_shapes(4)
    by (simp add: lift_pure_def)
  have l: "fold_string_list main_heap 0x200 1 ?op = Return (1037, main_heap) \<and>
      fold_string_list main_heap 0x200 0 count_calls = Return (2, main_heap) \<and>
      fold_list main_heap 0x200 1 ?op = Return (1037, main_heap) \<and>
      fold_list main_heap 0x200 0 count_calls = Return (2, main_heap)"
    using t [where l = "0x200" and xs = "[0x100, 0x104]"] main_heap_shapes(1)
    by (simp add: lift_pure_def)
  have a: "fold_array main_heap 0x300 2 1 ?op = Return (1105, main_heap) \<and>
      fold_array main_heap 0x300 2 0 count_calls = Return (2, main_heap) \<and>
      fold_counted_array main_heap 0x400 1 ?op = Return (1105, main_heap) \<and>
      fold_counted_array main_heap 0x400 0 count_calls = Return (2, main_heap)"
    using t [where a = "0x300" and c = "0x400" and xs = "[0x110, 0x118]"]
      main_heap_shapes(2,3)
    by (simp add: lift_pure_def)
  from ls i l a main_heap_shapes show ?thesis
    by blast
qed

text \<open>
  C4. The claim fails on the code when the allocation fails. On the list of \<^verbatim>\<open>main\<close>, with
  \<^verbatim>\<open>malloc\<close> returning \<open>NULL\<close>, \<^verbatim>\<open>concat(fold_list, l)\<close> writes through \<open>NULL\<close>, while
  \<^verbatim>\<open>concat_string_list(l)\<close> tests the pointer and returns \<open>NULL\<close>: the two calls that the
  source's comment and the claim call equal differ.
\<close>

theorem concat_differs_from_concat_string_list:
  "list_at main_heap 0x200 [0x100, 0x104] \<and>
   concat_c fold_list main_heap 0x200 NULL = Fault (InvalidWrite NULL) \<and>
   concat_string_list main_heap 0x200 NULL = Return (NULL, main_heap) \<and>
   concat_c fold_list main_heap 0x200 NULL \<noteq> concat_string_list main_heap 0x200 NULL"
  using main_heap_shapes(1) main_heap_concat_list_NULL main_heap_concat_string_list_NULL
  by simp

text \<open>
  C5. The claim fails: on an empty sequence (here the counted array of \<^verbatim>\<open>main\<close> with
  length 0) \<^verbatim>\<open>concat\<close> allocates one byte and returns it without writing the
  terminator, since no reducer call is made. The byte keeps what it held before (here
  \<^verbatim>\<open>'?'\<close>), and \<^verbatim>\<open>strlen\<close> of the result reads past the one-byte buffer.
\<close>

theorem concat_empty_not_terminated:
  "counted_array_at empty_array_heap 0x400 [] \<and>
   malloc_spec empty_array_heap 1 0x600 \<and>
   concat_c fold_counted_array empty_array_heap 0x400 0x600 =
     Return (0x600, empty_array_heap\<lparr>allocated := allocated empty_array_heap \<union> {0x600}\<rparr>) \<and>
   chars (empty_array_heap\<lparr>allocated := allocated empty_array_heap \<union> {0x600}\<rparr>) 0x600 = CHR ''?'' \<and>
   strlen (empty_array_heap\<lparr>allocated := allocated empty_array_heap \<union> {0x600}\<rparr>) 0x600 =
     Fault (InvalidRead 0x601)"
proof -
  have 1: "counted_array_at empty_array_heap 0x400 []"
    by (simp add: empty_array_heap_def counted_array_at_def)
  have 2: "malloc_spec empty_array_heap 1 0x600"
    using main_heap_malloc(3) by (simp add: malloc_spec_def empty_array_heap_def)
  have f: "\<And>A v op. fold_counted_array (empty_array_heap\<lparr>allocated := A\<rparr>) 0x400 v op =
      Return (v, empty_array_heap\<lparr>allocated := A\<rparr>)"
    unfolding fold_counted_array_def fold_array_def
    by (subst fold_array_loop.simps) (simp add: empty_array_heap_def)
  have 3: "concat_c fold_counted_array empty_array_heap 0x400 0x600 =
     Return (0x600, empty_array_heap\<lparr>allocated := allocated empty_array_heap \<union> {0x600}\<rparr>)"
    using f [of "allocated empty_array_heap"] f [of "allocated empty_array_heap \<union> {0x600}"]
    by (simp add: concat_c_def malloc_def block_numeral)
  have 4: "chars (empty_array_heap\<lparr>allocated := allocated empty_array_heap \<union> {0x600}\<rparr>) 0x600 = CHR ''?''"
    by (simp add: empty_array_heap_def main_heap_def)
  have 5: "strlen (empty_array_heap\<lparr>allocated := allocated empty_array_heap \<union> {0x600}\<rparr>) 0x600 =
     Fault (InvalidRead 0x601)"
    by (simp add: strlen_def strlen_from.simps empty_array_heap_def main_heap_def valid_char_def)
  from 1 2 3 4 5 show ?thesis by simp
qed

text \<open>
  C6. Folding an empty sequence returns the initial accumulator unchanged, whatever the
  reducer, and leaves memory as it was: a \<open>NULL\<close> list (\<^verbatim>\<open>fold_list\<close>,
  \<^verbatim>\<open>fold_string_list\<close>), an array with length 0 (\<^verbatim>\<open>fold_int_array\<close>, \<^verbatim>\<open>fold_array\<close>),
  and a counted array whose struct records length 0 (\<^verbatim>\<open>fold_counted_array\<close>).
  (\<^verbatim>\<open>fold_array\<close> returns the accumulator as \<^verbatim>\<open>int\<close>, the same 32 bits here.)
\<close>

theorem fold_empty_returns_init:
  "fold_list h NULL init op = Return (init, h) \<and>
   fold_string_list h NULL init sop = Return (init, h) \<and>
   fold_int_array h a 0 i0 iop = Return (i0, h) \<and>
   fold_array h a 0 init op = Return (init, h) \<and>
   fold_counted_array
     (h\<lparr>counted_arrays := (counted_arrays h)(c \<mapsto> \<lparr>ca_value = a, ca_length = 0\<rparr>)\<rparr>) c init op =
   Return (init, h\<lparr>counted_arrays := (counted_arrays h)(c \<mapsto> \<lparr>ca_value = a, ca_length = 0\<rparr>)\<rparr>)"
proof -
  have 1: "fold_list h NULL init op = Return (init, h)"
    unfolding fold_list_def by (subst fold_list_loop.simps) simp
  have 2: "fold_string_list h NULL init sop = Return (init, h)"
    unfolding fold_string_list_def by (subst fold_string_list_loop.simps) simp
  have 3: "fold_int_array h a 0 i0 iop = Return (i0, h)"
    unfolding fold_int_array_def by (subst fold_int_array_loop.simps) simp
  have 4: "\<And>h. fold_array h a 0 init op = Return (init, h)"
    unfolding fold_array_def by (subst fold_array_loop.simps) simp
  have 5: "fold_counted_array
     (h\<lparr>counted_arrays := (counted_arrays h)(c \<mapsto> \<lparr>ca_value = a, ca_length = 0\<rparr>)\<rparr>) c init op =
   Return (init, h\<lparr>counted_arrays := (counted_arrays h)(c \<mapsto> \<lparr>ca_value = a, ca_length = 0\<rparr>)\<rparr>)"
    by (simp add: fold_counted_array_def 4)
  from 1 2 3 4 5 show ?thesis by blast
qed

text \<open>
  C7. A fold with a reducer that writes nothing writes nothing: whenever it returns, all
  of memory (the elements, links and lengths of the sequence included) is as before.
  With a reducer that is a function \<open>f\<close> of accumulator and element alone, the fold
  returns \<open>foldl f init xs\<close>, which depends on the contents \<open>xs\<close> of the sequence, the
  initial accumulator and the reducer only.
\<close>

theorem fold_pure_reducer_no_effect:
  assumes "pure_reducer op"
  shows
    "(fold_string_list h l init op = Return (r, h') \<longrightarrow> h' = h) \<and>
     (fold_array h a len init op = Return (r, h') \<longrightarrow> h' = h) \<and>
     (fold_list h l init op = Return (r, h') \<longrightarrow> h' = h) \<and>
     (fold_int_array h a len init op = Return (r, h') \<longrightarrow> h' = h) \<and>
     (fold_counted_array h c init op = Return (r, h') \<longrightarrow> h' = h) \<and>
     (list_at h l xs \<longrightarrow>
        fold_string_list h l init (lift_pure f) = Return (foldl f init xs, h) \<and>
        fold_list h l init (lift_pure f) = Return (foldl f init xs, h)) \<and>
     (array_at (ptrs h) a xs \<and> length xs < 2 ^ 31 \<longrightarrow>
        fold_array h a (of_nat (length xs)) init (lift_pure f) = Return (foldl f init xs, h)) \<and>
     (array_at (ints h) a xs \<and> length xs < 2 ^ 31 \<longrightarrow>
        fold_int_array h a (of_nat (length xs)) init (lift_pure f) =
          Return (foldl f init xs, h)) \<and>
     (counted_array_at h c xs \<longrightarrow>
        fold_counted_array h c init (lift_pure f) = Return (foldl f init xs, h))"
proof -
  have lp: "\<forall>h v x v' h'. lift_pure f h v x = Return (v', h') \<longrightarrow> nodes h' = nodes h"
    "\<forall>h v x v' h'. lift_pure f h v x = Return (v', h') \<longrightarrow> ptrs h' = ptrs h"
    "\<forall>h v x v' h'. lift_pure f h v x = Return (v', h') \<longrightarrow> ints h' = ints h"
    by (auto simp: lift_pure_def)
  have 6: "list_at h l xs \<longrightarrow>
        fold_string_list h l init (lift_pure f) = Return (foldl f init xs, h) \<and>
        fold_list h l init (lift_pure f) = Return (foldl f init xs, h)"
    using fold_string_list_loop_thread [OF _ lp(1), of h l xs init]
      fold_list_loop_thread [OF _ lp(1), of h l xs init]
    by (simp add: fold_string_list_def fold_list_def thread_lift_pure)
  have 7: "array_at (ptrs h) a xs \<and> length xs < 2 ^ 31 \<longrightarrow>
        fold_array h a (of_nat (length xs)) init (lift_pure f) = Return (foldl f init xs, h)"
    using fold_array_thread [OF _ _ lp(2), of h a xs init]
    by (simp add: thread_lift_pure)
  have 8: "array_at (ints h) a xs \<and> length xs < 2 ^ 31 \<longrightarrow>
        fold_int_array h a (of_nat (length xs)) init (lift_pure f) =
          Return (foldl f init xs, h)"
    using fold_int_array_thread [OF _ _ lp(3), of h a xs init]
    by (simp add: thread_lift_pure)
  have 9: "counted_array_at h c xs \<longrightarrow>
        fold_counted_array h c init (lift_pure f) = Return (foldl f init xs, h)"
    using fold_counted_array_thread [OF _ lp(2), of h c xs init]
    by (simp add: thread_lift_pure)
  from assms 6 7 8 9 show ?thesis
    using fold_string_list_frame [of op h l init r h'] fold_array_frame [of op h a len init r h']
      fold_list_frame [of op h l init r h'] fold_int_array_frame [of op h a len init r h']
      fold_counted_array_frame [of op h c init r h']
    by blast
qed

theorem fold_pure_reducer_no_effect_witness:
  "pure_reducer (lift_pure (\<lambda>v x. 3 * v + x)) \<and>
   list_at main_heap 0x200 [0x100, 0x104] \<and>
   fold_string_list main_heap 0x200 1 (lift_pure (\<lambda>v x. 3 * v + x)) = Return (1037, main_heap) \<and>
   fold_list main_heap 0x200 1 (lift_pure (\<lambda>v x. 3 * v + x)) = Return (1037, main_heap) \<and>
   array_at (ptrs main_heap) 0x300 [0x110, 0x118] \<and>
   fold_array main_heap 0x300 2 1 (lift_pure (\<lambda>v x. 3 * v + x)) = Return (1105, main_heap) \<and>
   array_at (ints main_heap) 0x500 [1, 2, 3, 4] \<and>
   fold_int_array main_heap 0x500 4 1 (lift_pure (\<lambda>v x. 3 * v + x)) = Return (139, main_heap) \<and>
   counted_array_at main_heap 0x400 [0x110, 0x118] \<and>
   fold_counted_array main_heap 0x400 1 (lift_pure (\<lambda>v x. 3 * v + x)) = Return (1105, main_heap)"
proof -
  let ?f = "\<lambda>v x :: ptr. 3 * v + x"
  have pure: "pure_reducer (lift_pure ?f)"
    by (simp add: pure_reducer_def lift_pure_def)
  note t = fold_pure_reducer_no_effect [OF pure, where h = main_heap and init = 1 and f = ?f]
  have l: "fold_string_list main_heap 0x200 1 (lift_pure ?f) = Return (1037, main_heap) \<and>
      fold_list main_heap 0x200 1 (lift_pure ?f) = Return (1037, main_heap)"
    using t [where l = "0x200" and xs = "[0x100, 0x104]"] main_heap_shapes(1)
    by simp
  have a: "fold_array main_heap 0x300 2 1 (lift_pure ?f) = Return (1105, main_heap) \<and>
      fold_counted_array main_heap 0x400 1 (lift_pure ?f) = Return (1105, main_heap)"
    using t [where a = "0x300" and c = "0x400" and xs = "[0x110, 0x118]"]
      main_heap_shapes(2,3)
    by simp
  have i: "fold_int_array main_heap 0x500 4 1 (lift_pure ?f) = Return (139, main_heap)"
    using t [where a = "0x500" and xs = "[1, 2, 3, 4]"] main_heap_shapes(4)
    by simp
  from pure l a i main_heap_shapes show ?thesis
    by blast
qed

text \<open>
  C8. The two scenarios asserted in \<^verbatim>\<open>main\<close>: on a list that holds \<^verbatim>\<open>"foo"\<close> then \<^verbatim>\<open>"bar"\<close>,
  \<^verbatim>\<open>concat\<close> with \<^verbatim>\<open>fold_list\<close> returns a buffer at which the string \<^verbatim>\<open>"foobar"\<close> stands; on
  a counted array that holds \<^verbatim>\<open>"hello"\<close> then \<^verbatim>\<open>"world"\<close>, \<^verbatim>\<open>concat\<close> with
  \<^verbatim>\<open>fold_counted_array\<close> returns a buffer at which \<^verbatim>\<open>"helloworld"\<close> stands. As in \<^verbatim>\<open>main\<close>,
  the allocation is taken to succeed.
\<close>

theorem main_scenarios:
  "(list_at h l [a, b] \<and> cstring h a ''foo'' \<and> cstring h b ''bar'' \<and>
    malloc_spec h 7 p \<and> p \<noteq> NULL \<longrightarrow>
      (\<exists>h'. concat_c fold_list h l p = Return (p, h') \<and> cstring h' p ''foobar'')) \<and>
   (counted_array_at h c [a, b] \<and> cstring h a ''hello'' \<and> cstring h b ''world'' \<and>
    malloc_spec h 11 p \<and> p \<noteq> NULL \<longrightarrow>
      (\<exists>h'. concat_c fold_counted_array h c p = Return (p, h') \<and> cstring h' p ''helloworld''))"
proof (intro conjI impI)
  assume a: "list_at h l [a, b] \<and> cstring h a ''foo'' \<and> cstring h b ''bar'' \<and>
    malloc_spec h 7 p \<and> p \<noteq> NULL"
  let ?ss = "[''foo'', ''bar'']"
  from a have strs: "list_all2 (cstring h) [a, b] ?ss" by simp
  have len: "length (concat ?ss) < 2 ^ 31" by simp
  from a have ms: "malloc_spec h (of_nat (length (concat ?ss)) + 1) p" by simp
  from a have p: "p \<noteq> NULL" and l: "list_at h l [a, b]" by simp_all
  have "concat_c fold_list h l p = Return (p, concat_result h p ?ss)"
    by (rule concat_c_list [OF l strs len ms p])
  moreover have "cstring (concat_result h p ?ss) p (concat ?ss)"
    by (rule concat_result_cstring [OF strs _ len ms p]) simp
  ultimately show "\<exists>h'. concat_c fold_list h l p = Return (p, h') \<and> cstring h' p ''foobar''"
    by auto
next
  assume a: "counted_array_at h c [a, b] \<and> cstring h a ''hello'' \<and> cstring h b ''world'' \<and>
    malloc_spec h 11 p \<and> p \<noteq> NULL"
  let ?ss = "[''hello'', ''world'']"
  from a have strs: "list_all2 (cstring h) [a, b] ?ss" by simp
  have len: "length (concat ?ss) < 2 ^ 31" by simp
  from a have ms: "malloc_spec h (of_nat (length (concat ?ss)) + 1) p" by simp
  from a have p: "p \<noteq> NULL" and c: "counted_array_at h c [a, b]" by simp_all
  have "concat_c fold_counted_array h c p = Return (p, concat_result h p ?ss)"
    by (rule concat_c_counted_array [OF c strs len ms p])
  moreover have "cstring (concat_result h p ?ss) p (concat ?ss)"
    by (rule concat_result_cstring [OF strs _ len ms p]) simp
  ultimately show "\<exists>h'. concat_c fold_counted_array h c p = Return (p, h') \<and>
      cstring h' p ''helloworld''"
    by auto
qed

theorem main_scenarios_witness:
  "list_at main_heap 0x200 [0x100, 0x104] \<and>
   cstring main_heap 0x100 ''foo'' \<and> cstring main_heap 0x104 ''bar'' \<and>
   malloc_spec main_heap 7 0x600 \<and> (0x600 :: ptr) \<noteq> NULL \<and>
   (\<exists>h'. concat_c fold_list main_heap 0x200 0x600 = Return (0x600, h') \<and>
      cstring h' 0x600 ''foobar'') \<and>
   counted_array_at main_heap 0x400 [0x110, 0x118] \<and>
   cstring main_heap 0x110 ''hello'' \<and> cstring main_heap 0x118 ''world'' \<and>
   malloc_spec main_heap 11 0x600 \<and>
   (\<exists>h'. concat_c fold_counted_array main_heap 0x400 0x600 = Return (0x600, h') \<and>
      cstring h' 0x600 ''helloworld'')"
proof -
  have p: "(0x600 :: ptr) \<noteq> NULL" by simp
  have 1: "\<exists>h'. concat_c fold_list main_heap 0x200 0x600 = Return (0x600, h') \<and>
      cstring h' 0x600 ''foobar''"
    using main_scenarios [of main_heap "0x200" "0x100" "0x104" "0x600"]
      main_heap_shapes(1) main_heap_strings(1,2) main_heap_malloc(1) p
    by blast
  have 2: "\<exists>h'. concat_c fold_counted_array main_heap 0x400 0x600 = Return (0x600, h') \<and>
      cstring h' 0x600 ''helloworld''"
    using main_scenarios [of main_heap _ "0x110" "0x118" "0x600" "0x400"]
      main_heap_shapes(3) main_heap_strings(3,4) main_heap_malloc(2) p
    by blast
  from 1 2 p main_heap_shapes(1,3) main_heap_strings main_heap_malloc(1,2) show ?thesis
    by blast
qed

text \<open>
  C9. Folding the int array \<open>[1, 2, 3, 4]\<close> with initial accumulator 0 and the addition
  reducer \<^verbatim>\<open>sum\<close> yields 10, and so does \<^verbatim>\<open>sum_array\<close> on that array with length 4;
  memory is left as it was.
\<close>

theorem sum_array_1234:
  assumes "array_at (ints h) a [1, 2, 3, 4]"
  shows "fold_int_array h a 4 0 sum_c = Return (10, h) \<and> sum_array h a 4 = Return (10, h)"
proof -
  have pres: "\<forall>h v x v' h'. sum_c h v x = Return (v', h') \<longrightarrow> ints h' = ints h"
    by (simp add: sum_c_def)
  have a0: "array_at (ints h) (index_addr a 0) [1, 2, 3, 4]"
    using assms by simp
  have "fold_int_array_loop h a 4 sum_c 0 0 = thread sum_c h 0 [1, 2, 3, 4]"
    by (rule fold_int_array_loop_thread [OF a0 _ pres]) simp
  then show ?thesis
    by (simp add: sum_array_def fold_int_array_def sum_c_def)
qed

theorem sum_array_1234_witness:
  "array_at
     (ints \<lparr>chars = (\<lambda>a. NUL), allocated = {},
        ints = [0x1000 \<mapsto> 1, 0x1004 \<mapsto> 2, 0x1008 \<mapsto> 3, 0x100C \<mapsto> 4],
        ptrs = Map.empty, nodes = Map.empty, counted_arrays = Map.empty\<rparr>)
     0x1000 [1, 2, 3, 4] \<and>
   sum_array
     \<lparr>chars = (\<lambda>a. NUL), allocated = {},
        ints = [0x1000 \<mapsto> 1, 0x1004 \<mapsto> 2, 0x1008 \<mapsto> 3, 0x100C \<mapsto> 4],
        ptrs = Map.empty, nodes = Map.empty, counted_arrays = Map.empty\<rparr>
     0x1000 4 =
   Return (10,
     \<lparr>chars = (\<lambda>a. NUL), allocated = {},
        ints = [0x1000 \<mapsto> 1, 0x1004 \<mapsto> 2, 0x1008 \<mapsto> 3, 0x100C \<mapsto> 4],
        ptrs = Map.empty, nodes = Map.empty, counted_arrays = Map.empty\<rparr>)"
proof -
  let ?h = "\<lparr>chars = (\<lambda>a. NUL), allocated = {},
        ints = [0x1000 \<mapsto> 1, 0x1004 \<mapsto> 2, 0x1008 \<mapsto> 3, 0x100C \<mapsto> (4::cint)],
        ptrs = Map.empty, nodes = Map.empty, counted_arrays = Map.empty\<rparr>"
  have a: "array_at (ints ?h) 0x1000 [1, 2, 3, 4]"
    by simp
  from sum_array_1234 [OF a] a show ?thesis
    by blast
qed

text \<open>
  C10. The fold-based \<^verbatim>\<open>sum_array\<close> and the direct loop \<^verbatim>\<open>sum_array_direct\<close> have the same
  outcome on every memory, array pointer and length (the same sum, or the same invalid
  read); and on every string list \<^verbatim>\<open>fold_string_list(l, 0, accumulate_length)\<close> has the
  outcome of \<^verbatim>\<open>size_list(l)\<close>, converted to the \<^verbatim>\<open>char*\<close> the fold returns.
\<close>

theorem direct_and_fold_agree:
  "sum_array h xs n =
     (case sum_array_direct h xs n of Inl f \<Rightarrow> Fault f | Inr s \<Rightarrow> Return (s, h)) \<and>
   (list_at h l ps \<longrightarrow>
      fold_string_list h l NULL accumulate_length_as_string_binop =
        bind_result (size_list_c h l) (\<lambda>n. Return (int_to_ptr n, h)))"
proof -
  have "fold_string_list h l NULL accumulate_length_as_string_binop =
        bind_result (size_list_c h l) (\<lambda>n. Return (int_to_ptr n, h))" if "list_at h l ps"
    using size_list_loop_fold [OF that, of 0]
    by (simp add: fold_string_list_def size_list_c_def)
  then show ?thesis
    by (simp add: sum_array_def fold_int_array_def sum_array_direct_def sum_array_loops_agree)
qed

theorem direct_and_fold_agree_witness:
  "list_at main_heap 0x200 [0x100, 0x104] \<and>
   size_list_c main_heap 0x200 = Return 6 \<and>
   fold_string_list main_heap 0x200 NULL accumulate_length_as_string_binop =
     Return (6, main_heap) \<and>
   sum_array_direct main_heap 0x500 4 = Inr 10 \<and>
   sum_array main_heap 0x500 4 = Return (10, main_heap)"
  using direct_and_fold_agree [of main_heap "0x500" 4 "0x200" "[0x100, 0x104]"]
    main_heap_shapes(1) main_heap_size_list main_heap_sum_direct
  by simp

section \<open>Where the concatenation succeeds\<close>

text \<open>
  What \<^verbatim>\<open>concat\<close> does on the inputs on which it works. For a non-empty sequence of
  NUL-terminated strings \<open>ss\<close> (a linked list or a counted array of pointers \<open>xs\<close> to
  them) of total length below \<open>2 ^ 31\<close> and a successful allocation, \<^verbatim>\<open>concat\<close> returns the
  buffer \<open>p\<close>, and in the memory it leaves a NUL-terminated string stands at \<open>p\<close> whose
  characters are the elements' characters joined in traversal order with no separator:
  its \<^verbatim>\<open>strlen\<close> is the sum of the elements' lengths. \<^verbatim>\<open>concat_string_list\<close> does the same on
  a list. The characters of the objects that were live before are unchanged.
\<close>

theorem concat_joins_nonempty:
  assumes "list_all2 (cstring h) xs ss" and "xs \<noteq> []"
    and "length (concat ss) < 2 ^ 31"
    and "malloc_spec h (of_nat (length (concat ss)) + 1) p" and "p \<noteq> NULL"
  shows
    "(list_at h l xs \<longrightarrow>
        concat_c fold_list h l p = Return (p, concat_result h p ss) \<and>
        concat_string_list h l p = Return (p, concat_result h p ss)) \<and>
     (counted_array_at h c xs \<longrightarrow>
        concat_c fold_counted_array h c p = Return (p, concat_result h p ss)) \<and>
     cstring (concat_result h p ss) p (concat ss) \<and>
     strlen (concat_result h p ss) p = Return (of_nat (sum_list (map length ss))) \<and>
     (\<forall>a\<in>allocated h. chars (concat_result h p ss) a = chars h a)"
proof -
  have cs: "cstring (concat_result h p ss) p (concat ss)"
    by (rule concat_result_cstring [OF assms])
  have len: "strlen (concat_result h p ss) p = Return (of_nat (sum_list (map length ss)))"
    using strlen_cstring [OF cs] by (simp add: length_concat)
  have fr: "\<forall>a\<in>allocated h. chars (concat_result h p ss) a = chars h a"
    by (rule concat_result_frame [OF assms(4,5,3)])
  have li: "concat_c fold_list h l p = Return (p, concat_result h p ss) \<and>
        concat_string_list h l p = Return (p, concat_result h p ss)" if l: "list_at h l xs"
  proof -
    have 1: "concat_c fold_list h l p = Return (p, concat_result h p ss)"
      by (rule concat_c_list [OF l assms(1,3,4,5)])
    have "concat_string_list h l p = concat_c fold_list h l p"
      using concat_string_list_via_thread [OF l, of p]
        concat_c_via_thread [where fold' = fold_list and h = h and coll = l and xs = xs and p = p,
          OF fold_list_thread_alloc [OF l]] assms(5)
      by simp
    with 1 show ?thesis by simp
  qed
  have ca: "concat_c fold_counted_array h c p = Return (p, concat_result h p ss)"
    if "counted_array_at h c xs"
    by (rule concat_c_counted_array [OF that assms(1,3,4,5)])
  from cs len fr li ca show ?thesis by blast
qed

theorem concat_joins_nonempty_example:
  "list_all2 (cstring main_heap) [0x100, 0x104] [''foo'', ''bar''] \<and>
   [0x100, 0x104 :: ptr] \<noteq> [] \<and>
   length (concat [''foo'', ''bar'']) < 2 ^ 31 \<and>
   malloc_spec main_heap (of_nat (length (concat [''foo'', ''bar''])) + 1) 0x600 \<and>
   (0x600 :: ptr) \<noteq> NULL \<and>
   list_at main_heap 0x200 [0x100, 0x104] \<and>
   concat_c fold_list main_heap 0x200 0x600 =
     Return (0x600, concat_result main_heap 0x600 [''foo'', ''bar'']) \<and>
   concat_string_list main_heap 0x200 0x600 =
     Return (0x600, concat_result main_heap 0x600 [''foo'', ''bar'']) \<and>
   cstring (concat_result main_heap 0x600 [''foo'', ''bar'']) 0x600 ''foobar'' \<and>
   strlen (concat_result main_heap 0x600 [''foo'', ''bar'']) 0x600 = Return 6 \<and>
   chars (concat_result main_heap 0x600 [''foo'', ''bar'']) 0x100 = chars main_heap 0x100"
proof -
  have 1: "list_all2 (cstring main_heap) [0x100, 0x104] [''foo'', ''bar'']"
    using main_heap_strings by simp
  have 2: "[0x100, 0x104 :: ptr] \<noteq> []" by simp
  have 3: "length (concat [''foo'', ''bar'']) < 2 ^ 31" by simp
  have 4: "malloc_spec main_heap (of_nat (length (concat [''foo'', ''bar''])) + 1) 0x600"
    using main_heap_malloc(1) by simp
  have 5: "(0x600 :: ptr) \<noteq> NULL" by simp
  have 6: "(0x100 :: ptr) \<in> allocated main_heap"
    by (simp add: main_heap_def)
  from concat_joins_nonempty [OF 1 2 3 4 5, of "0x200" "0x400"] main_heap_shapes(1) 6
  have "concat_c fold_list main_heap 0x200 0x600 =
     Return (0x600, concat_result main_heap 0x600 [''foo'', ''bar'']) \<and>
   concat_string_list main_heap 0x200 0x600 =
     Return (0x600, concat_result main_heap 0x600 [''foo'', ''bar'']) \<and>
   cstring (concat_result main_heap 0x600 [''foo'', ''bar'']) 0x600 ''foobar'' \<and>
   strlen (concat_result main_heap 0x600 [''foo'', ''bar'']) 0x600 = Return 6 \<and>
   chars (concat_result main_heap 0x600 [''foo'', ''bar'']) 0x100 = chars main_heap 0x100"
    by simp
  with 1 2 3 4 5 main_heap_shapes(1) show ?thesis by blast
qed

text \<open>
  \<^verbatim>\<open>concat\<close> over a counted array has the outcome of \<^verbatim>\<open>concat\<close> over a list with the same
  elements, whatever \<^verbatim>\<open>malloc\<close> returns. When the allocation succeeds,
  \<^verbatim>\<open>concat(fold_list, l)\<close> has the outcome of \<^verbatim>\<open>concat_string_list(l)\<close> (on the data model of
  this theory, where the \<^verbatim>\<open>int\<close> that \<^verbatim>\<open>fold_string_list\<close> reads from \<^verbatim>\<open>stpcpy\<close> holds the
  whole pointer). For a list and a counted array whose elements are pointers (the same
  or not) to strings with equal contents \<open>ss\<close> of total length below \<open>2 ^ 31\<close>, both calls
  return the buffer and leave the same memory \<open>concat_result h p ss\<close>.
\<close>

theorem concat_shape_independent:
  assumes "list_at h l xs"
  shows
    "(p \<noteq> NULL \<longrightarrow> concat_c fold_list h l p = concat_string_list h l p) \<and>
     (counted_array_at h c xs \<longrightarrow>
        concat_c fold_counted_array h c p = concat_c fold_list h l p) \<and>
     (counted_array_at h c ys \<and> list_all2 (cstring h) xs ss \<and> list_all2 (cstring h) ys ss \<and>
      length (concat ss) < 2 ^ 31 \<and> malloc_spec h (of_nat (length (concat ss)) + 1) p \<and>
      p \<noteq> NULL \<longrightarrow>
        concat_c fold_counted_array h c p = Return (p, concat_result h p ss) \<and>
        concat_c fold_list h l p = Return (p, concat_result h p ss))"
proof -
  note l = concat_c_via_thread [where fold' = fold_list and h = h and coll = l and xs = xs
      and p = p, OF fold_list_thread_alloc [OF assms(1)]]
  have 1: "concat_c fold_list h l p = concat_string_list h l p" if "p \<noteq> NULL"
    using concat_string_list_via_thread [OF assms(1), of p] l that by simp
  have 2: "concat_c fold_counted_array h c p = concat_c fold_list h l p"
    if c: "counted_array_at h c xs"
    using concat_c_via_thread [where fold' = fold_counted_array and h = h and coll = c
        and xs = xs and p = p, OF fold_counted_array_thread_alloc [OF c]] l
    by simp
  have 3: "concat_c fold_counted_array h c p = Return (p, concat_result h p ss) \<and>
        concat_c fold_list h l p = Return (p, concat_result h p ss)"
    if "counted_array_at h c ys" "list_all2 (cstring h) xs ss" "list_all2 (cstring h) ys ss"
      "length (concat ss) < 2 ^ 31" "malloc_spec h (of_nat (length (concat ss)) + 1) p"
      "p \<noteq> NULL"
    using concat_c_counted_array [OF that(1,3,4,5,6)]
      concat_c_list [OF assms(1) that(2,4,5,6)]
    by simp
  from 1 2 3 show ?thesis by blast
qed

theorem concat_shape_independent_example:
  "list_at twin_heap 0x200 [0x100, 0x104] \<and>
   (0x600 :: ptr) \<noteq> NULL \<and>
   counted_array_at twin_heap 0x410 [0x100, 0x104] \<and>
   counted_array_at twin_heap 0x420 [0x120, 0x124] \<and>
   list_all2 (cstring twin_heap) [0x100, 0x104] [''foo'', ''bar''] \<and>
   list_all2 (cstring twin_heap) [0x120, 0x124] [''foo'', ''bar''] \<and>
   length (concat [''foo'', ''bar'']) < 2 ^ 31 \<and>
   malloc_spec twin_heap (of_nat (length (concat [''foo'', ''bar''])) + 1) 0x600 \<and>
   concat_c fold_list twin_heap 0x200 0x600 = concat_string_list twin_heap 0x200 0x600 \<and>
   concat_c fold_counted_array twin_heap 0x410 0x600 = concat_c fold_list twin_heap 0x200 0x600 \<and>
   concat_c fold_counted_array twin_heap 0x420 0x600 =
     Return (0x600, concat_result twin_heap 0x600 [''foo'', ''bar'']) \<and>
   concat_c fold_list twin_heap 0x200 0x600 =
     Return (0x600, concat_result twin_heap 0x600 [''foo'', ''bar''])"
proof -
  have p: "(0x600 :: ptr) \<noteq> NULL" by simp
  have len: "length (concat [''foo'', ''bar'']) < 2 ^ 31" by simp
  have ms: "malloc_spec twin_heap (of_nat (length (concat [''foo'', ''bar''])) + 1) 0x600"
    using twin_heap_facts(6) by simp
  note t = concat_shape_independent [OF twin_heap_facts(1), where p = "0x600"
      and ss = "[''foo'', ''bar'']"]
  have 1: "concat_c fold_list twin_heap 0x200 0x600 = concat_string_list twin_heap 0x200 0x600 \<and>
      concat_c fold_counted_array twin_heap 0x410 0x600 = concat_c fold_list twin_heap 0x200 0x600"
    using t [where c = "0x410"] twin_heap_facts(2) p by blast
  have 2: "concat_c fold_counted_array twin_heap 0x420 0x600 =
     Return (0x600, concat_result twin_heap 0x600 [''foo'', ''bar'']) \<and>
   concat_c fold_list twin_heap 0x200 0x600 =
     Return (0x600, concat_result twin_heap 0x600 [''foo'', ''bar''])"
    using t [where c = "0x420" and ys = "[0x120, 0x124]"] twin_heap_facts(3,4,5) len ms p
    by blast
  from 1 2 p len ms twin_heap_facts show ?thesis by blast
qed

end
